theory Spec2Isabelle
  imports Complex_Main "HOL-Library.Sublist"
begin

section \<open>Enrichment statistics and clustering of pomRelate\<close>

text \<open>
  A shallow embedding of the computational core of pomRelate: the log-factorial cache,
  the hypergeometric test, the Benjamini-Hochberg correction and the two enrichment
  drivers of the enrichment engine, and the Jaccard distance matrix and the UPGMA
  clustering of \<^verbatim>\<open>plots.js\<close>.

  Conventions of the embedding.
  \<^item> A JavaScript number that holds a count or an index is an \<open>int\<close> or a \<open>nat\<close>; a
    number that holds a probability, a logarithm or a distance is a \<open>real\<close>, with
    \<^verbatim>\<open>Math.log\<close> as \<open>ln\<close> and \<^verbatim>\<open>Math.exp\<close> as \<open>exp\<close>. The arithmetic is the exact one:
    rounding of IEEE doubles, \<^verbatim>\<open>NaN\<close> and overflow are outside the model.
  \<^item> An array is a list. A \<^verbatim>\<open>Set\<close> is a list without duplicates in insertion order, which
    is the order in which JavaScript iterates it. An object used as a dictionary is an
    association list with its keys, each of them once, in iteration order.
  \<^item> A function that mutates its argument or a module variable takes the old value and
    returns the new one.
\<close>

subsection \<open>Log-factorial cache\<close>

text \<open>
  \<^verbatim>\<open>_lfCache\<close> is a module-level array that starts as \<^verbatim>\<open>[0]\<close> and is written by \<^verbatim>\<open>lfact\<close>
  only. Every write of \<^verbatim>\<open>lfact\<close> goes to the index just past the end, so the array stays
  dense and is modelled as a list; \<open>arr_put\<close> is the assignment \<^verbatim>\<open>a[i] = v\<close> for an index
  up to the length of the array. The test \<^verbatim>\<open>_lfCache[n] !== undefined\<close> is then
  \<open>n < length c\<close>, and \<^verbatim>\<open>_lfCache[last]\<close> with \<^verbatim>\<open>last = _lfCache.length - 1\<close> is the last
  element of the list, which is never empty.
\<close>

definition lfCache_init :: "real list" where
  "lfCache_init = [0]"

definition arr_put :: "'a list \<Rightarrow> nat \<Rightarrow> 'a \<Rightarrow> 'a list" where
  "arr_put xs i v = (if i < length xs then xs[i := v] else xs @ [v])"

text \<open>
  The loop \<^verbatim>\<open>for (let i = last + 1; i <= n; i++) { val += Math.log(i); _lfCache[i] = val; }\<close>
  with the running \<^verbatim>\<open>val\<close> and the cache as arguments.
\<close>

function lfact_loop :: "nat \<Rightarrow> nat \<Rightarrow> real \<Rightarrow> real list \<Rightarrow> real list" where
  "lfact_loop i n val c =
     (if i \<le> n
      then (let val' = val + ln (real i) in lfact_loop (Suc i) n val' (arr_put c i val'))
      else c)"
  by pat_completeness auto
termination
  by (relation "measure (\<lambda>(i, n, val, c). Suc n - i)") auto

definition lfact :: "int \<Rightarrow> real list \<Rightarrow> real \<times> real list" where
  "lfact n c =
     (if n < 0 then (0, c)
      else if nat n < length c then (c ! nat n, c)
      else if n \<le> 1 then (0, arr_put c (nat n) 0)
      else (let c' = lfact_loop (length c) (nat n) (c ! (length c - 1)) c
            in (c' ! nat n, c')))"

subsection \<open>Hypergeometric upper tail\<close>

text \<open>
  The body of the summation loop of \<^verbatim>\<open>hypergeomPValue\<close>: the nine calls of \<^verbatim>\<open>lfact\<close> in the
  order in which JavaScript evaluates them, each one handing the cache to the next.
\<close>

definition hypergeom_lp :: "int \<Rightarrow> int \<Rightarrow> int \<Rightarrow> int \<Rightarrow> real list \<Rightarrow> real \<times> real list" where
  "hypergeom_lp i n K N c0 =
     (let (a1, c1) = lfact K c0;
          (a2, c2) = lfact i c1;
          (a3, c3) = lfact (K - i) c2;
          (a4, c4) = lfact (N - K) c3;
          (a5, c5) = lfact (n - i) c4;
          (a6, c6) = lfact (N - K - n + i) c5;
          (a7, c7) = lfact N c6;
          (a8, c8) = lfact n c7;
          (a9, c9) = lfact (N - n) c8
      in (a1 - a2 - a3 + a4 - a5 - a6 - a7 + a8 + a9, c9))"

function hypergeom_loop ::
  "int \<Rightarrow> int \<Rightarrow> int \<Rightarrow> int \<Rightarrow> int \<Rightarrow> real \<Rightarrow> real list \<Rightarrow> real \<times> real list" where
  "hypergeom_loop i maxI n K N pval c =
     (if i \<le> maxI
      then (let (lp, c') = hypergeom_lp i n K N c
            in hypergeom_loop (i + 1) maxI n K N (pval + exp lp) c')
      else (pval, c))"
  by pat_completeness auto
termination
  by (relation "measure (\<lambda>(i, maxI, n, K, N, pval, c). nat (maxI + 1 - i))") auto

definition hypergeomPValue :: "int \<Rightarrow> int \<Rightarrow> int \<Rightarrow> int \<Rightarrow> real list \<Rightarrow> real \<times> real list" where
  "hypergeomPValue k n K N c =
     (if k \<le> 0 \<or> n \<le> 0 \<or> K \<le> 0 \<or> N \<le> 0 then (1, c)
      else if n > N \<or> K > N then (1, c)
      else if k > min n K then (0, c)
      else (let minI = max (max k (n - (N - K))) 0;
                maxI = min n K;
                (pval, c') = hypergeom_loop minI maxI n K N 0 c
            in (min pval 1, c')))"

text \<open>
  The states the cache can be in: the initial one, and any state left by a call of
  \<^verbatim>\<open>lfact\<close> from such a state. \<open>cache_ok\<close> is the invariant of these states.
\<close>

inductive lf_reachable :: "real list \<Rightarrow> bool" where
  lf_init: "lf_reachable lfCache_init"
| lf_call: "lf_reachable c \<Longrightarrow> lf_reachable (snd (lfact n c))"

definition cache_ok :: "real list \<Rightarrow> bool" where
  "cache_ok c \<longleftrightarrow> c \<noteq> [] \<and> (\<forall>i < length c. c ! i = ln (fact i))"

text \<open>
  The reference upper tail, written from the specification: the logarithm of a binomial
  coefficient, the point probability \<open>hg_term\<close>, and the guarded, clamped sum.
\<close>

definition ln_choose :: "int \<Rightarrow> int \<Rightarrow> real" where
  "ln_choose a b = ln (real (nat a choose nat b))"

definition hg_term :: "int \<Rightarrow> int \<Rightarrow> int \<Rightarrow> int \<Rightarrow> real" where
  "hg_term i n K N = exp (ln_choose K i + ln_choose (N - K) (n - i) - ln_choose N n)"

definition hypergeom_ref :: "int \<Rightarrow> int \<Rightarrow> int \<Rightarrow> int \<Rightarrow> real" where
  "hypergeom_ref k n K N =
     (if k \<le> 0 \<or> n \<le> 0 \<or> K \<le> 0 \<or> N \<le> 0 \<or> n > N \<or> K > N then 1
      else if k > min n K then 0
      else min (\<Sum>i = max (max k (n - (N - K))) 0 .. min n K.
                  exp (ln_choose K i + ln_choose (N - K) (n - i) - ln_choose N n)) 1)"

text \<open>Valid parameters of the test: all positive, \<open>n \<le> N\<close>, \<open>K \<le> N\<close>, \<open>k \<le> min n K\<close>.\<close>

definition hg_valid :: "int \<Rightarrow> int \<Rightarrow> int \<Rightarrow> int \<Rightarrow> bool" where
  "hg_valid k n K N \<longleftrightarrow> 0 < k \<and> 0 < n \<and> 0 < K \<and> 0 < N \<and> n \<le> N \<and> K \<le> N \<and> k \<le> min n K"

subsection \<open>Result records and the Benjamini-Hochberg correction\<close>

text \<open>
  One row of an enrichment result. The fields \<^verbatim>\<open>term\<close> and \<^verbatim>\<open>fold\<close> of the source are
  \<open>term_id\<close> and \<open>fold_enrichment\<close> here.
\<close>

record enrichment_result =
  term_id :: string
  description :: string
  category :: string
  pValue :: real
  fdr :: real
  fold_enrichment :: real
  geneCount :: nat
  bgCount :: nat
  totalGenes :: nat
  totalBg :: nat
  genes :: "string list"

text \<open>
  The loop \<^verbatim>\<open>for (let i = m - 1; i >= 0; i--)\<close> of \<^verbatim>\<open>bhFDR\<close>; the second argument is
  \<open>i + 1\<close>, so that the loop ends when it is 0. Each round reads \<^verbatim>\<open>results[i + 1].fdr\<close>
  from the array as the rounds before have left it.
\<close>

fun bh_loop :: "nat \<Rightarrow> nat \<Rightarrow> enrichment_result list \<Rightarrow> enrichment_result list" where
  "bh_loop m 0 results = results"
| "bh_loop m (Suc i) results =
     (let rank = i + 1;
          raw = (pValue (results ! i) * real m) / real rank;
          v = (if int i < int m - 1 then min raw (fdr (results ! (i + 1))) else min raw 1)
      in bh_loop m i (results[i := (results ! i)\<lparr>fdr := v\<rparr>]))"

text \<open>
  \<^verbatim>\<open>results.sort((a, b) => a.pValue - b.pValue)\<close> is a stable sort (ECMAScript 2019) by
  a comparator that orders the rows by \<^verbatim>\<open>pValue\<close>, which determines the outcome: the stable
  ascending sort, \<open>sort_key pValue\<close>. \<^verbatim>\<open>bhFDR\<close> sorts and writes in place and returns its
  argument, so its one result here is both the array after the call and the value returned.
\<close>

definition bhFDR :: "enrichment_result list \<Rightarrow> enrichment_result list" where
  "bhFDR results =
     (let sorted_results = sort_key pValue results;
          m = length sorted_results
      in bh_loop m m sorted_results)"

text \<open>Two rows with p-values \<open>1/2\<close> and \<open>3/5\<close>, as a run with \<open>N = 10\<close>, \<open>n = 1\<close> gives them.\<close>

definition bh_row :: "string \<Rightarrow> real \<Rightarrow> nat \<Rightarrow> enrichment_result" where
  "bh_row t p K =
     \<lparr>term_id = t, description = [], category = ''KEGG Pathway'', pValue = p, fdr = 1,
      fold_enrichment = 10 / real K, geneCount = 1, bgCount = K, totalGenes = 1, totalBg = 10,
      genes = [''g1'']\<rparr>"

definition bh_example :: "enrichment_result list" where
  "bh_example = [bh_row ''T2'' (3 / 5) 6, bh_row ''T1'' (1 / 2) 5]"

subsection \<open>Sets and dictionaries\<close>

text \<open>
  \<^verbatim>\<open>Set.prototype.add\<close> and \<^verbatim>\<open>new Set(array)\<close> on the list of elements in insertion order.
\<close>

definition set_add :: "'a list \<Rightarrow> 'a \<Rightarrow> 'a list" where
  "set_add s x = (if x \<in> set s then s else s @ [x])"

definition new_Set :: "'a list \<Rightarrow> 'a list" where
  "new_Set xs = foldl set_add [] xs"

text \<open>
  An object used as a dictionary: the list of its entries as \<^verbatim>\<open>Object.entries\<close> gives them,
  \<open>map_of\<close> for the lookup \<^verbatim>\<open>obj[key]\<close>. Keys are taken not to be integer-like and not to
  name a member of \<^verbatim>\<open>Object.prototype\<close>, as protein, term and pathway identifiers are.
  The values of the input dictionaries are arrays, so that the guards
  \<^verbatim>\<open>Array.isArray(terms)\<close> and \<^verbatim>\<open>Array.isArray(pathways)\<close> pass and \<^verbatim>\<open>goData[pid]\<close> is truthy
  exactly when \<^verbatim>\<open>pid\<close> is a key.
\<close>

type_synonym 'v js_object = "(string \<times> 'v) list"

text \<open>A string argument that may be missing is truthy when it is there and not empty.\<close>

definition js_truthy :: "string option \<Rightarrow> bool" where
  "js_truthy s = (case s of None \<Rightarrow> False | Some v \<Rightarrow> v \<noteq> [])"

subsection \<open>Term enrichment, shared part\<close>

text \<open>
  The loop \<^verbatim>\<open>Test each term\<close> is the same code in \<^verbatim>\<open>runGOEnrichment\<close> and
  \<^verbatim>\<open>runKEGGEnrichment\<close> up to the names of the fields it reads; it is written once, over
  the entries \<open>(term, description, category, members)\<close> of \<^verbatim>\<open>termBg\<close> or \<^verbatim>\<open>pathwayBg\<close>.
  \<open>query\<close> is \<^verbatim>\<open>queryInBg\<close> or the elements of \<^verbatim>\<open>queryGeneNames\<close>; the inner loop that counts
  \<^verbatim>\<open>k\<close> and pushes to \<^verbatim>\<open>geneHits\<close> is the filter. \<^verbatim>\<open>Math.round(x)\<close> is \<open>\<lfloor>x + 1/2\<rfloor>\<close>.
\<close>

fun test_terms ::
  "string list \<Rightarrow> nat \<Rightarrow> nat \<Rightarrow> (string \<times> string \<times> string \<times> string list) list \<Rightarrow>
   enrichment_result list \<Rightarrow> real list \<Rightarrow> enrichment_result list \<times> real list" where
  "test_terms query n N [] results c = (results, c)"
| "test_terms query n N ((term, desc, cat, members) # rest) results c =
     (let K = length members;
          geneHits = filter (\<lambda>pid. pid \<in> set members) query;
          k = length geneHits
      in if k = 0 then test_terms query n N rest results c
         else
           (let (pVal, c') = hypergeomPValue (int k) (int n) (int K) (int N) c;
                expectedK = (real K / real N) * real n;
                fold = (if expectedK > 0 then real k / expectedK else 0);
                row = \<lparr>term_id = term, description = desc, category = cat, pValue = pVal,
                       fdr = 1, fold_enrichment = real_of_int \<lfloor>fold * 100 + 1 / 2\<rfloor> / 100,
                       geneCount = k, bgCount = K, totalGenes = n, totalBg = N,
                       genes = geneHits\<rparr>
            in test_terms query n N rest (results @ [row]) c'))"

text \<open>What an enrichment run returns.\<close>

record stats =
  mapped :: nat
  total :: nat
  termsTotal :: nat

record enrichment_output =
  results :: "enrichment_result list"
  stats :: stats

subsection \<open>GO enrichment\<close>

text \<open>
  One annotation of a protein. A missing \<^verbatim>\<open>term\<close>, \<^verbatim>\<open>description\<close> or \<^verbatim>\<open>category\<close> is the
  empty string, which the source treats alike (\<^verbatim>\<open>!t.term\<close>, \<^verbatim>\<open>t.description || ''\<close>,
  \<^verbatim>\<open>t.category || 'Unknown'\<close>).
\<close>

record go_annotation =
  ann_term :: string
  ann_description :: string
  ann_category :: string

record term_info =
  info_desc :: string
  info_category :: string
  proteins :: "string list"

text \<open>The body of the loop over the annotations \<^verbatim>\<open>t\<close> of one protein \<^verbatim>\<open>pid\<close>.\<close>

definition go_add_term ::
  "string option \<Rightarrow> string \<Rightarrow> term_info js_object \<Rightarrow> go_annotation \<Rightarrow> term_info js_object" where
  "go_add_term categoryFilter pid termBg t =
     (if ann_term t = [] then termBg
      else
        (let cat = (if ann_category t = [] then ''Unknown'' else ann_category t)
         in if js_truthy categoryFilter \<and> \<not> sublist (the categoryFilter) cat then termBg
            else
              (let termBg1 =
                     (if map_of termBg (ann_term t) = None
                      then termBg @ [(ann_term t,
                             \<lparr>info_desc = ann_description t, info_category = cat, proteins = []\<rparr>)]
                      else termBg)
               in map (\<lambda>(key, info).
                        if key = ann_term t
                        then (key, info\<lparr>proteins := set_add (proteins info) pid\<rparr>)
                        else (key, info)) termBg1)))"

definition go_build_termBg ::
  "string option \<Rightarrow> go_annotation list js_object \<Rightarrow> term_info js_object" where
  "go_build_termBg categoryFilter goData =
     foldl (\<lambda>termBg (pid, terms). foldl (go_add_term categoryFilter pid) termBg terms) [] goData"

text \<open>
  \<^verbatim>\<open>runGOEnrichment\<close>. \<open>None\<close> for \<^verbatim>\<open>goData\<close> is a missing (null or undefined) argument. The
  log-factorial cache goes in and comes out.
\<close>

definition runGOEnrichment ::
  "string list \<Rightarrow> go_annotation list js_object option \<Rightarrow> string option \<Rightarrow> real list \<Rightarrow>
   enrichment_output \<times> real list" where
  "runGOEnrichment queryProteinIds goData categoryFilter c =
     (case goData of
        None \<Rightarrow>
          (\<lparr>results = [], stats = \<lparr>mapped = 0, total = 0, termsTotal = 0\<rparr>\<rparr>, c)
      | Some gd \<Rightarrow>
          if length queryProteinIds = 0
          then (\<lparr>results = [], stats = \<lparr>mapped = 0, total = 0, termsTotal = 0\<rparr>\<rparr>, c)
          else
            (let bgProteins = map fst gd;
                 N = length bgProteins;
                 termBg = go_build_termBg categoryFilter gd;
                 queryInBg = filter (\<lambda>pid. map_of gd pid \<noteq> None) queryProteinIds;
                 n = length queryInBg;
                 querySet = new_Set queryInBg
             in if n = 0
                then (\<lparr>results = [],
                       stats = \<lparr>mapped = 0, total = length queryProteinIds,
                                termsTotal = length termBg\<rparr>\<rparr>, c)
                else
                  (let (results0, c') =
                         test_terms queryInBg n N
                           (map (\<lambda>(term, info).
                                  (term, info_desc info, info_category info, proteins info)) termBg)
                           [] c
                   in (\<lparr>results = bhFDR results0,
                        stats = \<lparr>mapped = n, total = length queryProteinIds,
                                 termsTotal = length termBg\<rparr>\<rparr>, c'))))"

subsection \<open>KEGG enrichment\<close>

record pathway_info =
  pw_name :: string
  pw_genes :: "string list"

text \<open>
  \<^verbatim>\<open>keggPathwayData\<close>: the dictionaries \<^verbatim>\<open>pathways\<close> (names by identifier) and
  \<^verbatim>\<open>gene_pathways\<close> (pathways by gene), either of which may be missing.
\<close>

record kegg_data =
  pathways :: "string js_object option"
  gene_pathways :: "string list js_object option"

text \<open>\<^verbatim>\<open>pw.replace(/^path:/, '')\<close>\<close>

definition strip_path :: "string \<Rightarrow> string" where
  "strip_path pw = (if prefix ''path:'' pw then drop 5 pw else pw)"

text \<open>The body of the loop over the pathways \<^verbatim>\<open>pw\<close> of one gene.\<close>

definition kegg_add_pathway ::
  "string js_object \<Rightarrow> string \<Rightarrow> pathway_info js_object \<Rightarrow> string \<Rightarrow> pathway_info js_object" where
  "kegg_add_pathway pathwayNames gene pathwayBg pw =
     (let pathwayBg1 =
            (if map_of pathwayBg pw = None
             then (let lookup = strip_path pw;
                       name = (case map_of pathwayNames lookup of
                                 None \<Rightarrow> pw
                               | Some nm \<Rightarrow> if nm = [] then pw else nm)
                   in pathwayBg @ [(pw, \<lparr>pw_name = name, pw_genes = []\<rparr>)])
             else pathwayBg)
      in map (\<lambda>(key, info).
               if key = pw
               then (key, info\<lparr>pw_genes := set_add (pw_genes info) gene\<rparr>)
               else (key, info)) pathwayBg1)"

definition kegg_build_pathwayBg ::
  "string js_object \<Rightarrow> string list js_object \<Rightarrow> pathway_info js_object" where
  "kegg_build_pathwayBg pathwayNames genePathways =
     foldl (\<lambda>pathwayBg (gene, pws). foldl (kegg_add_pathway pathwayNames gene) pathwayBg pws)
       [] genePathways"

text \<open>
  The search through the aliases of one protein: each alias verbatim, then upper-cased,
  then lower-cased; the first hit ends the search. \<^verbatim>\<open>toUpperCase\<close> and \<^verbatim>\<open>toLowerCase\<close> are
  the parameters \<open>upper\<close> and \<open>lower\<close>.
\<close>

fun kegg_try_aliases ::
  "(string \<Rightarrow> string) \<Rightarrow> (string \<Rightarrow> string) \<Rightarrow> string list \<Rightarrow> string list \<Rightarrow> string option" where
  "kegg_try_aliases upper lower keggGeneSet [] = None"
| "kegg_try_aliases upper lower keggGeneSet (alias # rest) =
     (if alias \<in> set keggGeneSet then Some alias
      else if upper alias \<in> set keggGeneSet then Some (upper alias)
      else if lower alias \<in> set keggGeneSet then Some (lower alias)
      else kegg_try_aliases upper lower keggGeneSet rest)"

text \<open>
  What the body of the resolution loop adds to \<^verbatim>\<open>queryGeneNames\<close> for one \<^verbatim>\<open>pid\<close>, if
  anything. \<^verbatim>\<open>infoData\<close> is reduced to the \<^verbatim>\<open>name\<close> field of each entry (empty for a
  missing name). \<^verbatim>\<open>pidToKegg\<close> is written and never read, and is left out.
\<close>

definition kegg_resolve ::
  "(string \<Rightarrow> string) \<Rightarrow> (string \<Rightarrow> string) \<Rightarrow> string list \<Rightarrow>
   string list js_object option \<Rightarrow> string js_object option \<Rightarrow> string \<Rightarrow> string option" where
  "kegg_resolve upper lower keggGeneSet aliasData infoData pid =
     (if pid \<in> set keggGeneSet then Some pid
      else
        (let byName =
               (case infoData of
                  None \<Rightarrow> None
                | Some info \<Rightarrow>
                    (case map_of info pid of
                       None \<Rightarrow> None
                     | Some name \<Rightarrow>
                         if name \<noteq> [] \<and> name \<in> set keggGeneSet then Some name else None))
         in case byName of
              Some name \<Rightarrow> Some name
            | None \<Rightarrow>
                (case aliasData of
                   None \<Rightarrow> None
                 | Some al \<Rightarrow>
                     (case map_of al pid of
                        None \<Rightarrow> None
                      | Some aliases \<Rightarrow> kegg_try_aliases upper lower keggGeneSet aliases))))"

definition kegg_query_names ::
  "(string \<Rightarrow> string) \<Rightarrow> (string \<Rightarrow> string) \<Rightarrow> string list \<Rightarrow>
   string list js_object option \<Rightarrow> string js_object option \<Rightarrow> string list \<Rightarrow> string list" where
  "kegg_query_names upper lower keggGeneSet aliasData infoData queryProteinIds =
     foldl (\<lambda>queryGeneNames pid.
              case kegg_resolve upper lower keggGeneSet aliasData infoData pid of
                None \<Rightarrow> queryGeneNames
              | Some g \<Rightarrow> set_add queryGeneNames g) [] queryProteinIds"

definition runKEGGEnrichment ::
  "(string \<Rightarrow> string) \<Rightarrow> (string \<Rightarrow> string) \<Rightarrow> string list \<Rightarrow> kegg_data option \<Rightarrow>
   string list js_object option \<Rightarrow> string js_object option \<Rightarrow> real list \<Rightarrow>
   enrichment_output \<times> real list" where
  "runKEGGEnrichment upper lower queryProteinIds keggPathwayData aliasData infoData c =
     (case (case keggPathwayData of None \<Rightarrow> None | Some kd \<Rightarrow> gene_pathways kd) of
        None \<Rightarrow>
          (\<lparr>results = [],
            stats = \<lparr>mapped = 0, total = length queryProteinIds, termsTotal = 0\<rparr>\<rparr>, c)
      | Some genePathways \<Rightarrow>
          (let pathwayNames =
                 (case pathways (the keggPathwayData) of None \<Rightarrow> [] | Some names \<Rightarrow> names);
               keggGeneSet = new_Set (map fst genePathways);
               N = length keggGeneSet;
               pathwayBg = kegg_build_pathwayBg pathwayNames genePathways;
               queryGeneNames =
                 kegg_query_names upper lower keggGeneSet aliasData infoData queryProteinIds;
               n = length queryGeneNames
           in if n = 0
              then (\<lparr>results = [],
                     stats = \<lparr>mapped = 0, total = length queryProteinIds,
                              termsTotal = length pathwayBg\<rparr>\<rparr>, c)
              else
                (let (results0, c') =
                       test_terms queryGeneNames n N
                         (map (\<lambda>(pw, info). (pw, pw_name info, ''KEGG Pathway'', pw_genes info))
                            pathwayBg)
                         [] c
                 in (\<lparr>results = bhFDR results0,
                      stats = \<lparr>mapped = n, total = length queryProteinIds,
                               termsTotal = length pathwayBg\<rparr>\<rparr>, c'))))"

subsection \<open>Background sets and resolved queries, as the specification describes them\<close>

text \<open>
  An annotation is considered when it has a term identifier and its category (with
  \<open>''Unknown''\<close> for a missing one) passes the category filter. The background gene set of a
  term is the set of proteins that carry a considered annotation with that term.
\<close>

definition go_considered :: "string option \<Rightarrow> go_annotation \<Rightarrow> bool" where
  "go_considered categoryFilter t \<longleftrightarrow>
     ann_term t \<noteq> [] \<and>
     (js_truthy categoryFilter \<longrightarrow>
        sublist (the categoryFilter) (if ann_category t = [] then ''Unknown'' else ann_category t))"

definition go_background ::
  "string option \<Rightarrow> go_annotation list js_object \<Rightarrow> string \<Rightarrow> string set" where
  "go_background categoryFilter goData term =
     {pid. \<exists>terms t. (pid, terms) \<in> set goData \<and> t \<in> set terms \<and>
             go_considered categoryFilter t \<and> ann_term t = term}"

definition kegg_background :: "string list js_object \<Rightarrow> string \<Rightarrow> string set" where
  "kegg_background genePathways pw =
     {gene. \<exists>pws. (gene, pws) \<in> set genePathways \<and> pw \<in> set pws}"

text \<open>
  The resolved query set: in GO mode the query identifiers that are keys of \<^verbatim>\<open>goData\<close>, in
  KEGG mode the gene names that the resolution finds for the query identifiers.
\<close>

definition go_resolved :: "go_annotation list js_object \<Rightarrow> string list \<Rightarrow> string set" where
  "go_resolved goData queryProteinIds = {pid \<in> set queryProteinIds. pid \<in> fst ` set goData}"

definition kegg_resolved ::
  "(string \<Rightarrow> string) \<Rightarrow> (string \<Rightarrow> string) \<Rightarrow> string list js_object \<Rightarrow>
   string list js_object option \<Rightarrow> string js_object option \<Rightarrow> string list \<Rightarrow> string set" where
  "kegg_resolved upper lower genePathways aliasData infoData queryProteinIds =
     {g. \<exists>pid \<in> set queryProteinIds.
           kegg_resolve upper lower (new_Set (map fst genePathways)) aliasData infoData pid = Some g}"

text \<open>
  Both dictionaries of background sets are filled by the same steps: create the entry of a
  key on its first occurrence, then add the member to the entry's set. \<open>dict_add_member\<close>
  states these steps once, for the proofs; \<open>dict_inv\<close> is what holds of a dictionary filled
  with the (member, key) pairs \<open>ps\<close>.
\<close>

definition dict_add_member ::
  "('i \<Rightarrow> string \<Rightarrow> 'i) \<Rightarrow> 'i \<Rightarrow> 'i js_object \<Rightarrow> string \<Rightarrow> string \<Rightarrow> 'i js_object" where
  "dict_add_member app fresh d key m =
     map (\<lambda>(k, info). if k = key then (k, app info m) else (k, info))
       (if map_of d key = None then d @ [(key, fresh)] else d)"

definition dict_inv :: "('i \<Rightarrow> string list) \<Rightarrow> 'i js_object \<Rightarrow> (string \<times> string) list \<Rightarrow> bool" where
  "dict_inv mem d ps \<longleftrightarrow>
     distinct (map fst d) \<and>
     (\<forall>(k, info) \<in> set d. distinct (mem info) \<and> set (mem info) = {m. (m, k) \<in> set ps}) \<and>
     (\<forall>(m, k) \<in> set ps. k \<in> fst ` set d)"

definition flat_entries :: "'v list js_object \<Rightarrow> (string \<times> 'v) list" where
  "flat_entries obj = concat (map (\<lambda>(k, vs). map (Pair k) vs) obj)"

text \<open>
  What the term loop makes of one entry \<open>e\<close> of the dictionary, for the fields of the row
  that the invariants of the rows are about.
\<close>

definition row_of ::
  "string list \<Rightarrow> nat \<Rightarrow> nat \<Rightarrow> (string \<times> string \<times> string \<times> string list) \<Rightarrow>
   enrichment_result \<Rightarrow> bool" where
  "row_of query n N e r \<longleftrightarrow>
     term_id r = fst e \<and>
     genes r = filter (\<lambda>pid. pid \<in> set (snd (snd (snd e)))) query \<and>
     geneCount r = length (genes r) \<and> 0 < geneCount r \<and>
     bgCount r = length (snd (snd (snd e))) \<and> totalGenes r = n \<and> totalBg r = N"

text \<open>Small inputs for the examples: one protein with one annotation, one gene on one pathway.\<close>

definition go_example :: "go_annotation list js_object" where
  "go_example = [(''a'', [\<lparr>ann_term = ''T'', ann_description = ''d'', ann_category = []\<rparr>])]"

definition kegg_example :: kegg_data where
  "kegg_example =
     \<lparr>pathways = Some [(''x'', ''Glycolysis'')], gene_pathways = Some [(''a'', [''path:x''])]\<rparr>"

subsection \<open>Jaccard distance matrix\<close>

text \<open>
  The distance of two gene sets as the inner loop body of \<^verbatim>\<open>computeJaccardDistanceMatrix\<close>
  computes it: \<^verbatim>\<open>a\<close> and \<^verbatim>\<open>b\<close> are \<^verbatim>\<open>Set\<close>s, the count of the \<^verbatim>\<open>g\<close> of \<^verbatim>\<open>a\<close> with
  \<^verbatim>\<open>b.has(g)\<close> is the length of the filter.
\<close>

definition jaccard_pair :: "string list \<Rightarrow> string list \<Rightarrow> real" where
  "jaccard_pair a b =
     (let intersection = int (length (filter (\<lambda>g. g \<in> set b) a));
          union = int (length a) + int (length b) - intersection
      in if union = 0 then 1 else 1 - real_of_int intersection / real_of_int union)"

text \<open>
  The two loops \<^verbatim>\<open>for (let i = 0; i < n; i++)\<close> and \<^verbatim>\<open>for (let j = i + 1; j < n; j++)\<close>,
  with the matrix \<^verbatim>\<open>dist\<close> as an argument; the two assignments write inside the rows.
\<close>

function jaccard_inner ::
  "string list list \<Rightarrow> nat \<Rightarrow> nat \<Rightarrow> nat \<Rightarrow> real list list \<Rightarrow> real list list" where
  "jaccard_inner geneSets n i j distM =
     (if j < n
      then (let d = jaccard_pair (geneSets ! i) (geneSets ! j);
                dist1 = distM[i := (distM ! i)[j := d]];
                dist2 = dist1[j := (dist1 ! j)[i := d]]
            in jaccard_inner geneSets n i (j + 1) dist2)
      else distM)"
  by pat_completeness auto
termination
  by (relation "measure (\<lambda>(geneSets, n, i, j, distM). n - j)") auto

function jaccard_outer ::
  "string list list \<Rightarrow> nat \<Rightarrow> nat \<Rightarrow> real list list \<Rightarrow> real list list" where
  "jaccard_outer geneSets n i distM =
     (if i < n
      then jaccard_outer geneSets n (i + 1) (jaccard_inner geneSets n i (i + 1) distM)
      else distM)"
  by pat_completeness auto
termination
  by (relation "measure (\<lambda>(geneSets, n, i, distM). n - i)") auto

text \<open>
  The rows of \<^verbatim>\<open>data\<close> are result rows; \<^verbatim>\<open>d.genes || []\<close> makes a missing \<^verbatim>\<open>genes\<close> an
  empty array, which is what \<open>genes d = []\<close> stands for. \<^verbatim>\<open>new Float64Array(n)\<close> is a row
  of \<open>n\<close> zeros.
\<close>

definition computeJaccardDistanceMatrix :: "enrichment_result list \<Rightarrow> real list list" where
  "computeJaccardDistanceMatrix data =
     (let n = length data;
          geneSets = map (\<lambda>d. new_Set (genes d)) data;
          distM = replicate n (replicate n 0)
      in jaccard_outer geneSets n 0 distM)"

text \<open>A matrix of \<open>n\<close> rows of length \<open>n\<close>.\<close>

definition square :: "nat \<Rightarrow> 'a list list \<Rightarrow> bool" where
  "square n d \<longleftrightarrow> length d = n \<and> (\<forall>i < n. length (d ! i) = n)"

text \<open>The Jaccard distance of the specification, with its convention for two empty sets.\<close>

definition jaccard_ref :: "string set \<Rightarrow> string set \<Rightarrow> real" where
  "jaccard_ref A B =
     (if A = {} \<and> B = {} then 1 else 1 - real (card (A \<inter> B)) / real (card (A \<union> B)))"

text \<open>Two rows for the examples, the first one without genes.\<close>

definition jaccard_example :: "enrichment_result list" where
  "jaccard_example = [(bh_row ''T1'' (1 / 2) 5)\<lparr>genes := []\<rparr>, bh_row ''T2'' (3 / 5) 6]"

subsection \<open>UPGMA clustering\<close>

text \<open>
  A node of the tree: a leaf \<^verbatim>\<open>{ index, height: 0 }\<close> or an internal node
  \<^verbatim>\<open>{ left, right, height }\<close>.
\<close>

datatype cluster_node = Leaf nat | Internal cluster_node cluster_node real

fun node_height :: "cluster_node \<Rightarrow> real" where
  "node_height (Leaf i) = 0"
| "node_height (Internal l r h) = h"

datatype js_error = TypeError

text \<open>
  The working state of \<^verbatim>\<open>upgmaClustering\<close>: the arrays \<^verbatim>\<open>dist\<close>, \<^verbatim>\<open>sizes\<close> and \<^verbatim>\<open>nodes\<close> and the
  \<^verbatim>\<open>Set\<close> \<^verbatim>\<open>active\<close>.
\<close>

record upgma_state =
  st_dist :: "real list list"
  st_sizes :: "nat list"
  st_active :: "nat list"
  st_nodes :: "cluster_node list"

text \<open>
  The search for the closest pair. The triple \<^verbatim>\<open>minDist, mi, mj\<close> starts as
  \<^verbatim>\<open>Infinity, -1, -1\<close>, which is \<open>None\<close> here; every distance is below \<^verbatim>\<open>Infinity\<close>.
  \<open>scan_step\<close> is the body of the inner loop for the pair \<^verbatim>\<open>i = activeArr[ai]\<close>,
  \<^verbatim>\<open>j = activeArr[aj]\<close>; \<open>scan_row\<close> is the inner loop over the elements after position
  \<^verbatim>\<open>ai\<close>, \<open>scan_pairs\<close> the outer loop.
\<close>

type_synonym closest = "(real \<times> nat \<times> nat) option"

definition scan_step :: "real list list \<Rightarrow> closest \<Rightarrow> nat \<times> nat \<Rightarrow> closest" where
  "scan_step d best p =
     (case p of (i, j) \<Rightarrow>
        (case best of
           None \<Rightarrow> Some (d ! i ! j, i, j)
         | Some (minDist, mi, mj) \<Rightarrow> if d ! i ! j < minDist then Some (d ! i ! j, i, j) else best))"

fun scan_row :: "real list list \<Rightarrow> nat \<Rightarrow> nat list \<Rightarrow> closest \<Rightarrow> closest" where
  "scan_row d i [] best = best"
| "scan_row d i (j # js) best = scan_row d i js (scan_step d best (i, j))"

fun scan_pairs :: "real list list \<Rightarrow> nat list \<Rightarrow> closest \<Rightarrow> closest" where
  "scan_pairs d [] best = best"
| "scan_pairs d (i # rest) best = scan_pairs d rest (scan_row d i rest best)"

text \<open>
  The loop \<^verbatim>\<open>for (const k of active)\<close> that updates the distances of the merged cluster,
  kept at index \<^verbatim>\<open>newIdx = mi\<close>.
\<close>

fun update_dists ::
  "nat \<Rightarrow> nat \<Rightarrow> nat \<Rightarrow> nat \<Rightarrow> nat list \<Rightarrow> real list list \<Rightarrow> real list list" where
  "update_dists mi mj si sj [] d = d"
| "update_dists mi mj si sj (k # ks) d =
     (if k = mi \<or> k = mj then update_dists mi mj si sj ks d
      else
        (let v = (d ! mi ! k * real si + d ! mj ! k * real sj) / real (si + sj);
             d1 = d[mi := (d ! mi)[k := v]];
             d2 = d1[k := (d1 ! k)[mi := d1 ! mi ! k]]
         in update_dists mi mj si sj ks d2))"

text \<open>
  One round of the main loop. When the search finds no pair, which takes fewer than two
  active clusters, \<^verbatim>\<open>mi\<close> is still \<^verbatim>\<open>-1\<close> and the update of \<^verbatim>\<open>dist[newIdx][k]\<close> for the
  active \<^verbatim>\<open>k\<close> raises a \<^verbatim>\<open>TypeError\<close>, as \<^verbatim>\<open>dist[-1]\<close> is undefined. (With no active
  cluster at all the source would go on with undefined entries instead; a round of
  \<^verbatim>\<open>upgmaClustering\<close> always starts with two active clusters or more.)
\<close>

definition upgma_step :: "upgma_state \<Rightarrow> js_error + upgma_state" where
  "upgma_step s =
     (case scan_pairs (st_dist s) (st_active s) None of
        None \<Rightarrow> Inl TypeError
      | Some (minDist, mi, mj) \<Rightarrow>
          (let mergedNode = Internal (st_nodes s ! mi) (st_nodes s ! mj) (minDist / 2);
               newIdx = mi;
               si = st_sizes s ! mi;
               sj = st_sizes s ! mj;
               d = update_dists mi mj si sj (st_active s) (st_dist s)
           in Inr \<lparr>st_dist = d,
                   st_sizes = (st_sizes s)[newIdx := si + sj],
                   st_active = removeAll mj (st_active s),
                   st_nodes = (st_nodes s)[newIdx := mergedNode]\<rparr>))"

text \<open>
  The loop \<^verbatim>\<open>for (let step = 0; step < n - 1; step++)\<close>; the first argument is the number
  of rounds still to run.
\<close>

fun upgma_loop :: "nat \<Rightarrow> upgma_state \<Rightarrow> js_error + upgma_state" where
  "upgma_loop 0 s = Inr s"
| "upgma_loop (Suc t) s =
     (case upgma_step s of Inl e \<Rightarrow> Inl e | Inr s' \<Rightarrow> upgma_loop t s')"

definition upgma_init :: "real list list \<Rightarrow> upgma_state" where
  "upgma_init distMatrix =
     (let n = length distMatrix
      in \<lparr>st_dist = map (\<lambda>row. row) distMatrix,
          st_sizes = replicate n 1,
          st_active = [0..<n],
          st_nodes = map Leaf [0..<n]\<rparr>)"

text \<open>
  \<^verbatim>\<open>upgmaClustering\<close>: \<open>Inr None\<close> is the result \<^verbatim>\<open>null\<close>. The rows of \<^verbatim>\<open>distMatrix\<close> are
  arrays of numbers.
\<close>

definition upgmaClustering :: "real list list \<Rightarrow> js_error + cluster_node option" where
  "upgmaClustering distMatrix =
     (let n = length distMatrix
      in if n = 0 then Inr None
         else if n = 1 then Inr (Some (Leaf 0))
         else
           (case upgma_loop (n - 1) (upgma_init distMatrix) of
              Inl e \<Rightarrow> Inl e
            | Inr s \<Rightarrow> Inr (Some (st_nodes s ! hd (st_active s)))))"

subsection \<open>What the specification says of the clustering\<close>

fun leaves :: "cluster_node \<Rightarrow> nat" where
  "leaves (Leaf i) = 1"
| "leaves (Internal l r h) = leaves l + leaves r"

fun internals :: "cluster_node \<Rightarrow> nat" where
  "internals (Leaf i) = 0"
| "internals (Internal l r h) = internals l + internals r + 1"

fun leaf_indices :: "cluster_node \<Rightarrow> nat list" where
  "leaf_indices (Leaf i) = [i]"
| "leaf_indices (Internal l r h) = leaf_indices l @ leaf_indices r"

text \<open>The pairs of active clusters in the order of the scan.\<close>

fun active_pairs :: "nat list \<Rightarrow> (nat \<times> nat) list" where
  "active_pairs [] = []"
| "active_pairs (i # rest) = map (Pair i) rest @ active_pairs rest"

text \<open>
  \<open>(a, b)\<close> is the first pair of minimum distance among the pairs \<open>ps\<close>: the pairs before it
  are strictly farther apart, the pairs after it at least as far.
\<close>

definition first_min_pair :: "real list list \<Rightarrow> (nat \<times> nat) list \<Rightarrow> nat \<times> nat \<Rightarrow> bool" where
  "first_min_pair d ps p \<longleftrightarrow>
     (\<exists>before after. ps = before @ p # after \<and>
        (\<forall>q \<in> set before. d ! fst p ! snd p < d ! fst q ! snd q) \<and>
        (\<forall>q \<in> set after. d ! fst p ! snd p \<le> d ! fst q ! snd q))"

text \<open>
  One merge as the specification describes it, from state \<open>s\<close> to state \<open>s'\<close>: the first
  closest pair \<open>(a, b)\<close> of active clusters becomes an internal node of height half their
  distance, kept at index \<open>a\<close>; \<open>b\<close> is retired; the distance between the merged cluster and
  every other active cluster \<open>k\<close> is the size-weighted average, in both directions, and the
  distances among the other active clusters stay.
\<close>

definition merge_spec :: "upgma_state \<Rightarrow> upgma_state \<Rightarrow> bool" where
  "merge_spec s s' \<longleftrightarrow>
     (\<exists>a b. first_min_pair (st_dist s) (active_pairs (st_active s)) (a, b) \<and>
        st_nodes s' =
          (st_nodes s)[a := Internal (st_nodes s ! a) (st_nodes s ! b) (st_dist s ! a ! b / 2)] \<and>
        st_sizes s' = (st_sizes s)[a := st_sizes s ! a + st_sizes s ! b] \<and>
        st_active s' = removeAll b (st_active s) \<and>
        (\<forall>k \<in> set (st_active s) - {a, b}.
           st_dist s' ! a ! k =
             (st_dist s ! a ! k * real (st_sizes s ! a) + st_dist s ! b ! k * real (st_sizes s ! b))
               / real (st_sizes s ! a + st_sizes s ! b) \<and>
           st_dist s' ! k ! a = st_dist s' ! a ! k \<and>
           (\<forall>l \<in> set (st_active s) - {a, b}. st_dist s' ! k ! l = st_dist s ! k ! l)))"

text \<open>The matrix of the three-leaf example: \<open>d(A,B) = 0.2\<close>, \<open>d(A,C) = d(B,C) = 0.8\<close>.\<close>

definition upgma_example :: "real list list" where
  "upgma_example = [[0, 1 / 5, 4 / 5], [1 / 5, 0, 4 / 5], [4 / 5, 4 / 5, 0]]"

text \<open>
  The states that the main loop goes through, for the statement that each round is a
  merge: the state before each round, and the state after the last one.
\<close>

fun upgma_trace :: "nat \<Rightarrow> upgma_state \<Rightarrow> upgma_state list" where
  "upgma_trace 0 s = [s]"
| "upgma_trace (Suc t) s =
     s # (case upgma_step s of Inl e \<Rightarrow> [] | Inr s' \<Rightarrow> upgma_trace t s')"

text \<open>
  The invariant of the main loop for \<open>m\<close> input rows: the arrays keep their sizes, the
  active indices are distinct row indices, each active index holds a tree whose number of
  leaves is its recorded size and exceeds its number of internal nodes by one, and the
  trees of the active indices hold \<open>m\<close> leaves, whose indices are all the rows, between them.
\<close>

definition upgma_inv :: "nat \<Rightarrow> upgma_state \<Rightarrow> bool" where
  "upgma_inv m s \<longleftrightarrow>
     square m (st_dist s) \<and> length (st_sizes s) = m \<and> length (st_nodes s) = m \<and>
     distinct (st_active s) \<and> set (st_active s) \<subseteq> {0..<m} \<and>
     (\<forall>a \<in> set (st_active s).
        st_sizes s ! a = leaves (st_nodes s ! a) \<and>
        internals (st_nodes s ! a) + 1 = leaves (st_nodes s ! a)) \<and>
     (\<Sum>a \<in> set (st_active s). leaves (st_nodes s ! a)) = m \<and>
     (\<Union>a \<in> set (st_active s). set (leaf_indices (st_nodes s ! a))) = {0..<m}"

subsection \<open>Facts about the cache and the upper tail\<close>

declare lfact_loop.simps [simp del] hypergeom_loop.simps [simp del]

lemma cache_ok_init: "cache_ok lfCache_init"
  by (simp add: cache_ok_def lfCache_init_def)

lemma lfact_loop_spec:
  "cache_ok c \<Longrightarrow> i = length c \<Longrightarrow> val = ln (fact (i - 1)) \<Longrightarrow>
   cache_ok (lfact_loop i n val c) \<and>
   length (lfact_loop i n val c) = max (length c) (Suc n) \<and>
   take (length c) (lfact_loop i n val c) = c"
proof (induction i n val c rule: lfact_loop.induct)
  case (1 i n val c)
  show ?case
  proof (cases "i \<le> n")
    case False
    then have "lfact_loop i n val c = c" by (subst lfact_loop.simps) simp
    with False 1(2,3) show ?thesis by (simp add: max_def)
  next
    case True
    let ?v = "val + ln (real i)"
    let ?c = "arr_put c i ?v"
    have ipos: "0 < i" using 1 by (simp add: cache_ok_def)
    have c': "?c = c @ [?v]" using 1 by (simp add: arr_put_def)
    have v: "?v = ln (fact i)"
    proof -
      obtain j where j: "i = Suc j" using ipos by (cases i) auto
      show ?thesis using 1(4) j by (simp add: ln_mult add.commute)
    qed
    have ok: "cache_ok ?c"
      using 1(2,3) v unfolding c' cache_ok_def
      by (auto simp: nth_append less_Suc_eq)
    have "cache_ok (lfact_loop (Suc i) n ?v ?c) \<and>
          length (lfact_loop (Suc i) n ?v ?c) = max (length ?c) (Suc n) \<and>
          take (length ?c) (lfact_loop (Suc i) n ?v ?c) = ?c"
      using 1(1) [OF True refl ok] 1(3) v c' by simp
    moreover have "lfact_loop i n val c = lfact_loop (Suc i) n ?v ?c"
      using True by (subst lfact_loop.simps) (simp add: Let_def)
    ultimately show ?thesis
      using True 1(3) c'
      by (auto simp: max_def dest: arg_cong [where f = "take (length c)"])
  qed
qed


lemma lfact_spec:
  assumes "cache_ok c"
  shows "fst (lfact n c) = ln (fact (nat n))"
    and "cache_ok (snd (lfact n c))"
    and "length (snd (lfact n c)) = max (length c) (nat (n + 1))"
    and "take (length c) (snd (lfact n c)) = c"
proof -
  have ne: "c \<noteq> []" and val: "\<And>i. i < length c \<Longrightarrow> c ! i = ln (fact i)"
    using assms by (auto simp: cache_ok_def)
  have len: "0 < length c" using ne by simp
  consider (neg) "n < 0" | (hit) "0 \<le> n" "nat n < length c"
    | (one) "0 \<le> n" "\<not> nat n < length c" "n \<le> 1"
    | (ext) "0 \<le> n" "\<not> nat n < length c" "\<not> n \<le> 1"
    by linarith
  then have "fst (lfact n c) = ln (fact (nat n)) \<and> cache_ok (snd (lfact n c)) \<and>
     length (snd (lfact n c)) = max (length c) (nat (n + 1)) \<and>
     take (length c) (snd (lfact n c)) = c"
  proof cases
    case neg
    then show ?thesis using assms by (simp add: lfact_def)
  next
    case hit
    then show ?thesis using assms val by (simp add: lfact_def max_def nat_add_distrib)
  next
    case one
    then have n1: "n = 1" and l1: "length c = 1" using len by linarith+
    then obtain x where c: "c = [x]" by (cases c) auto
    with val [of 0] have "x = 0" by simp
    then show ?thesis using n1 c by (simp add: lfact_def arr_put_def cache_ok_def less_Suc_eq)
  next
    case ext
    let ?c = "lfact_loop (length c) (nat n) (c ! (length c - 1)) c"
    have "c ! (length c - 1) = ln (fact (length c - 1))" using val len by simp
    from lfact_loop_spec [OF assms refl this, of "nat n"]
    have "cache_ok ?c" "length ?c = max (length c) (Suc (nat n))" "take (length c) ?c = c"
      by auto
    moreover have "lfact n c = (?c ! nat n, ?c)" using ext by (simp add: lfact_def Let_def)
    ultimately show ?thesis using ext by (simp add: cache_ok_def nat_add_distrib)
  qed
  then show "fst (lfact n c) = ln (fact (nat n))"
    and "cache_ok (snd (lfact n c))"
    and "length (snd (lfact n c)) = max (length c) (nat (n + 1))"
    and "take (length c) (snd (lfact n c)) = c" by auto
qed

lemma lf_reachable_ok: "lf_reachable c \<Longrightarrow> cache_ok c"
  by (induction rule: lf_reachable.induct) (simp_all add: cache_ok_init lfact_spec)


lemma ln_choose_fact:
  assumes "0 \<le> b" "b \<le> a"
  shows "ln_choose a b = ln (fact (nat a)) - ln (fact (nat b)) - ln (fact (nat (a - b)))"
proof -
  have le: "nat b \<le> nat a" using assms by simp
  have "real (nat a choose nat b) = fact (nat a) / (fact (nat b) * fact (nat a - nat b))"
    by (rule binomial_fact [OF le])
  moreover have "nat a - nat b = nat (a - b)" using assms by simp
  ultimately show ?thesis
    by (simp add: ln_choose_def ln_div ln_mult)
qed

lemma lfact_pair:
  "cache_ok c \<Longrightarrow> \<exists>c'. lfact n c = (ln (fact (nat n)), c') \<and> cache_ok c'"
  using lfact_spec(1,2) [of c n] by (cases "lfact n c") auto

lemma hypergeom_lp_spec:
  assumes k0: "cache_ok c"
  shows "cache_ok (snd (hypergeom_lp i n K N c))"
    and "fst (hypergeom_lp i n K N c) =
           ln (fact (nat K)) - ln (fact (nat i)) - ln (fact (nat (K - i)))
         + ln (fact (nat (N - K))) - ln (fact (nat (n - i))) - ln (fact (nat (N - K - n + i)))
         - ln (fact (nat N)) + ln (fact (nat n)) + ln (fact (nat (N - n)))"
proof -
  obtain c1 where e1: "lfact (K) c = (ln (fact (nat (K))), c1)" and k1: "cache_ok c1"
    using lfact_pair [OF k0] by blast
  obtain c2 where e2: "lfact (i) c1 = (ln (fact (nat (i))), c2)" and k2: "cache_ok c2"
    using lfact_pair [OF k1] by blast
  obtain c3 where e3: "lfact (K - i) c2 = (ln (fact (nat (K - i))), c3)" and k3: "cache_ok c3"
    using lfact_pair [OF k2] by blast
  obtain c4 where e4: "lfact (N - K) c3 = (ln (fact (nat (N - K))), c4)" and k4: "cache_ok c4"
    using lfact_pair [OF k3] by blast
  obtain c5 where e5: "lfact (n - i) c4 = (ln (fact (nat (n - i))), c5)" and k5: "cache_ok c5"
    using lfact_pair [OF k4] by blast
  obtain c6 where e6: "lfact (N - K - n + i) c5 = (ln (fact (nat (N - K - n + i))), c6)" and k6: "cache_ok c6"
    using lfact_pair [OF k5] by blast
  obtain c7 where e7: "lfact (N) c6 = (ln (fact (nat (N))), c7)" and k7: "cache_ok c7"
    using lfact_pair [OF k6] by blast
  obtain c8 where e8: "lfact (n) c7 = (ln (fact (nat (n))), c8)" and k8: "cache_ok c8"
    using lfact_pair [OF k7] by blast
  obtain c9 where e9: "lfact (N - n) c8 = (ln (fact (nat (N - n))), c9)" and k9: "cache_ok c9"
    using lfact_pair [OF k8] by blast
  have "hypergeom_lp i n K N c =
     (ln (fact (nat K)) - ln (fact (nat i)) - ln (fact (nat (K - i)))
         + ln (fact (nat (N - K))) - ln (fact (nat (n - i))) - ln (fact (nat (N - K - n + i)))
         - ln (fact (nat N)) + ln (fact (nat n)) + ln (fact (nat (N - n))), c9)"
    unfolding hypergeom_lp_def e1 e2 e3 e4 e5 e6 e7 e8 e9 Let_def prod.case ..
  with k9 show "cache_ok (snd (hypergeom_lp i n K N c))"
    and "fst (hypergeom_lp i n K N c) =
           ln (fact (nat K)) - ln (fact (nat i)) - ln (fact (nat (K - i)))
         + ln (fact (nat (N - K))) - ln (fact (nat (n - i))) - ln (fact (nat (N - K - n + i)))
         - ln (fact (nat N)) + ln (fact (nat n)) + ln (fact (nat (N - n)))"
    by simp_all
qed

lemma hypergeom_lp_value:
  assumes "cache_ok c" "0 \<le> i" "i \<le> K" "i \<le> n" "n - (N - K) \<le> i" "n \<le> N" "K \<le> N"
  shows "exp (fst (hypergeom_lp i n K N c)) = hg_term i n K N"
proof -
  have a: "ln_choose K i = ln (fact (nat K)) - ln (fact (nat i)) - ln (fact (nat (K - i)))"
    using assms by (intro ln_choose_fact) auto
  have b: "ln_choose (N - K) (n - i) =
      ln (fact (nat (N - K))) - ln (fact (nat (n - i))) - ln (fact (nat (N - K - (n - i))))"
    using assms by (intro ln_choose_fact) auto
  have c: "ln_choose N n = ln (fact (nat N)) - ln (fact (nat n)) - ln (fact (nat (N - n)))"
    using assms by (intro ln_choose_fact) auto
  have d: "N - K - (n - i) = N - K - n + i" by simp
  show ?thesis
    unfolding hg_term_def a b c d hypergeom_lp_spec(2) [OF assms(1)] by simp
qed

lemma int_interval_split: "(i::int) \<le> m \<Longrightarrow> {i..m} = insert i {i + 1..m}"
  by auto

lemma hypergeom_loop_spec:
  assumes "cache_ok c" "0 \<le> i" "maxI \<le> K" "maxI \<le> n" "n - (N - K) \<le> i" "n \<le> N" "K \<le> N"
  shows "fst (hypergeom_loop i maxI n K N pval c) = pval + (\<Sum>j = i..maxI. hg_term j n K N) \<and>
         cache_ok (snd (hypergeom_loop i maxI n K N pval c))"
  using assms
proof (induction i maxI n K N pval c rule: hypergeom_loop.induct)
  case (1 i maxI n K N pval c)
  show ?case
  proof (cases "i \<le> maxI")
    case False
    then have "hypergeom_loop i maxI n K N pval c = (pval, c)"
      by (subst hypergeom_loop.simps) simp
    with False 1(2) show ?thesis by simp
  next
    case True
    obtain lp c' where lp: "hypergeom_lp i n K N c = (lp, c')" by (cases "hypergeom_lp i n K N c")
    have ok': "cache_ok c'" using hypergeom_lp_spec(1) [OF 1(2), of i n K N] lp by simp
    have e: "exp lp = hg_term i n K N"
      using hypergeom_lp_value [of c i K n N] 1(2-) True lp by simp
    have step: "hypergeom_loop i maxI n K N pval c = hypergeom_loop (i + 1) maxI n K N (pval + exp lp) c'"
      using True lp by (subst hypergeom_loop.simps) simp
    have IH: "fst (hypergeom_loop (i + 1) maxI n K N (pval + exp lp) c') =
        pval + exp lp + (\<Sum>j = i + 1..maxI. hg_term j n K N) \<and>
        cache_ok (snd (hypergeom_loop (i + 1) maxI n K N (pval + exp lp) c'))"
      using 1(1) [OF True lp [symmetric] refl ok'] 1(3-) by simp
    have "(\<Sum>j = i..maxI. hg_term j n K N) = hg_term i n K N + (\<Sum>j = i + 1..maxI. hg_term j n K N)"
      by (subst int_interval_split [OF True]) simp
    with IH e step show ?thesis by simp
  qed
qed

lemma hypergeomPValue_deg:
  assumes "k \<le> 0 \<or> n \<le> 0 \<or> K \<le> 0 \<or> N \<le> 0 \<or> n > N \<or> K > N"
  shows "hypergeomPValue k n K N c = (1, c)" "hypergeom_ref k n K N = 1"
proof -
  show "hypergeom_ref k n K N = 1" unfolding hypergeom_ref_def using assms by (rule if_P)
  show "hypergeomPValue k n K N c = (1, c)"
  proof (cases "k \<le> 0 \<or> n \<le> 0 \<or> K \<le> 0 \<or> N \<le> 0")
    case True
    then show ?thesis unfolding hypergeomPValue_def by (rule if_P)
  next
    case False
    with assms have "n > N \<or> K > N" by blast
    with False show ?thesis unfolding hypergeomPValue_def by (simp only: if_False if_True)
  qed
qed

lemma hypergeomPValue_zero:
  assumes "\<not> (k \<le> 0 \<or> n \<le> 0 \<or> K \<le> 0 \<or> N \<le> 0 \<or> n > N \<or> K > N)" "k > min n K"
  shows "hypergeomPValue k n K N c = (0, c)" "hypergeom_ref k n K N = 0"
proof -
  from assms(1) have a: "\<not> (k \<le> 0 \<or> n \<le> 0 \<or> K \<le> 0 \<or> N \<le> 0)" "\<not> (n > N \<or> K > N)" by blast+
  show "hypergeom_ref k n K N = 0" unfolding hypergeom_ref_def using assms by (simp only: if_False if_True)
  show "hypergeomPValue k n K N c = (0, c)"
    unfolding hypergeomPValue_def using a assms(2) by (simp only: if_False if_True)
qed

lemma hypergeomPValue_sum:
  assumes "cache_ok c"
    and sum: "\<not> (k \<le> 0 \<or> n \<le> 0 \<or> K \<le> 0 \<or> N \<le> 0 \<or> n > N \<or> K > N)" "\<not> k > min n K"
  shows "fst (hypergeomPValue k n K N c) =
           min (\<Sum>j = max (max k (n - (N - K))) 0..min n K. hg_term j n K N) 1"
    and "cache_ok (snd (hypergeomPValue k n K N c))"
    and "hypergeom_ref k n K N =
           min (\<Sum>j = max (max k (n - (N - K))) 0..min n K. hg_term j n K N) 1"
proof -
  let ?lo = "max (max k (n - (N - K))) 0"
  let ?hi = "min n K"
  let ?r = "hypergeom_loop ?lo ?hi n K N 0 c"
  have l: "fst ?r = 0 + (\<Sum>j = ?lo..?hi. hg_term j n K N) \<and> cache_ok (snd ?r)"
    using sum by (intro hypergeom_loop_spec assms) simp_all
  have p: "hypergeomPValue k n K N c = (min (fst ?r) 1, snd ?r)"
    unfolding hypergeomPValue_def using sum by (simp add: split_def Let_def)
  show "fst (hypergeomPValue k n K N c) = min (\<Sum>j = ?lo..?hi. hg_term j n K N) 1"
    unfolding p using l by simp
  show "cache_ok (snd (hypergeomPValue k n K N c))"
    unfolding p using l by simp
  show "hypergeom_ref k n K N = min (\<Sum>j = ?lo..?hi. hg_term j n K N) 1"
    unfolding hypergeom_ref_def hg_term_def using sum by simp
qed

lemma hypergeomPValue_ref:
  assumes "cache_ok c"
  shows "fst (hypergeomPValue k n K N c) = hypergeom_ref k n K N \<and> cache_ok (snd (hypergeomPValue k n K N c))"
proof (cases "k \<le> 0 \<or> n \<le> 0 \<or> K \<le> 0 \<or> N \<le> 0 \<or> n > N \<or> K > N")
  case deg: True
  show ?thesis unfolding hypergeomPValue_deg [OF deg] using assms by simp
next
  case nd: False
  show ?thesis
  proof (cases "k > min n K")
    case True
    show ?thesis unfolding hypergeomPValue_zero [OF nd True] using assms by simp
  next
    case False
    show ?thesis
      unfolding hypergeomPValue_sum(1) [OF assms nd False] hypergeomPValue_sum(3) [OF assms nd False]
      using hypergeomPValue_sum(2) [OF assms nd False] by simp
  qed
qed

lemma hg_term_pos: "0 < hg_term i n K N"
  by (simp add: hg_term_def)

lemma hypergeom_ref_range: "0 \<le> hypergeom_ref k n K N \<and> hypergeom_ref k n K N \<le> 1"
  by (auto simp: hypergeom_ref_def hg_term_def [symmetric] intro!: sum_nonneg less_imp_le [OF hg_term_pos])

lemma hypergeom_ref_valid:
  "hg_valid k n K N \<Longrightarrow>
   hypergeom_ref k n K N = min (\<Sum>j = max (max k (n - (N - K))) 0..min n K. hg_term j n K N) 1"
  unfolding hypergeom_ref_def hg_valid_def hg_term_def by (simp add: not_less not_le)

lemma hypergeom_ref_antimono:
  assumes "hg_valid k n K N" "hg_valid k' n K N" "k \<le> k'"
  shows "hypergeom_ref k' n K N \<le> hypergeom_ref k n K N"
proof -
  let ?a = "n - (N - K)"
  let ?A = "{max (max k' ?a) 0..min n K}"
  let ?B = "{max (max k ?a) 0..min n K}"
  have sub: "?A \<subseteq> ?B"
  proof (rule atLeastatMost_subset_iff [THEN iffD2], rule disjI2, rule conjI)
    show "max (max k ?a) 0 \<le> max (max k' ?a) 0" using assms(3) by linarith
    show "min n K \<le> min n K" by simp
  qed
  have "sum (\<lambda>j. hg_term j n K N) ?A \<le> sum (\<lambda>j. hg_term j n K N) ?B"
  proof (rule sum_mono2 [OF _ sub])
    show "finite ?B" by simp
    show "0 \<le> hg_term b n K N" for b by (rule less_imp_le [OF hg_term_pos])
  qed
  then have "min (sum (\<lambda>j. hg_term j n K N) ?A) 1 \<le> min (sum (\<lambda>j. hg_term j n K N) ?B) 1"
    by (rule min.mono) simp
  then show ?thesis
    unfolding hypergeom_ref_valid [OF assms(1)] hypergeom_ref_valid [OF assms(2)] .
qed

lemma ln_fact_sum: "ln (fact n) = (\<Sum>i = 2..n. ln (real i))"
proof (induction n)
  case 0
  show ?case by simp
next
  case (Suc n)
  show ?case
  proof (cases "n = 0")
    case True
    then show ?thesis by simp
  next
    case False
    then have "{2..Suc n} = insert (Suc n) {2..n}" by auto
    then have "(\<Sum>i = 2..Suc n. ln (real i)) = ln (real (Suc n)) + (\<Sum>i = 2..n. ln (real i))"
      by simp
    moreover have "ln (fact (Suc n)) = ln (real (Suc n)) + ln (fact n)"
      by (simp add: ln_mult)
    ultimately show ?thesis using Suc by simp
  qed
qed

lemma cache_ok_step:
  assumes "cache_ok c" "0 < i" "i < length c"
  shows "c ! i = c ! (i - 1) + ln (real i)"
proof -
  obtain j where j: "i = Suc j" using assms(2) by (cases i) auto
  have "c ! i = ln (fact i)" "c ! j = ln (fact j)"
    using assms j by (simp_all add: cache_ok_def)
  then show ?thesis using j by (simp add: ln_mult add.commute)
qed

lemma hypergeom_lp_reachable:
  assumes "lf_reachable c"
  shows "lf_reachable (snd (hypergeom_lp i n K N c))"
proof -
  have "snd (hypergeom_lp i n K N c) =
      snd (lfact (N - n) (snd (lfact n (snd (lfact N (snd (lfact (N - K - n + i)
        (snd (lfact (n - i) (snd (lfact (N - K) (snd (lfact (K - i)
          (snd (lfact i (snd (lfact K c)))))))))))))))))"
    by (simp add: hypergeom_lp_def split_def Let_def)
  then show ?thesis
    using assms by (simp only: lf_call)
qed

lemma hypergeom_loop_reachable:
  "lf_reachable c \<Longrightarrow> lf_reachable (snd (hypergeom_loop i maxI n K N pval c))"
proof (induction i maxI n K N pval c rule: hypergeom_loop.induct)
  case (1 i maxI n K N pval c)
  show ?case
  proof (cases "i \<le> maxI")
    case False
    then have "hypergeom_loop i maxI n K N pval c = (pval, c)"
      by (subst hypergeom_loop.simps) simp
    with 1(2) show ?thesis by simp
  next
    case True
    obtain lp c' where lp: "hypergeom_lp i n K N c = (lp, c')" by (cases "hypergeom_lp i n K N c")
    have r: "lf_reachable c'" using hypergeom_lp_reachable [OF 1(2), of i n K N] lp by simp
    have "hypergeom_loop i maxI n K N pval c = hypergeom_loop (i + 1) maxI n K N (pval + exp lp) c'"
      using True lp by (subst hypergeom_loop.simps) simp
    then show ?thesis using 1(1) [OF True lp [symmetric] refl r] by simp
  qed
qed

lemma hypergeomPValue_reachable:
  "lf_reachable c \<Longrightarrow> lf_reachable (snd (hypergeomPValue k n K N c))"
  by (simp add: hypergeomPValue_def split_def Let_def hypergeom_loop_reachable)

subsection \<open>Claims on the log-factorial cache\<close>

text \<open>
  C7. In every state the cache can reach, \<open>lfact n\<close> returns \<open>ln (n!)\<close>, which is the sum of
  \<open>ln i\<close> for \<open>i\<close> from 2 to \<open>n\<close> and is 0 for \<open>n \<le> 1\<close>, negative \<open>n\<close> included (the model
  is total: no input raises). The cache after the call keeps every entry it had before
  (nothing already filled is overwritten), it reaches exactly up to the requested index
  when that lies beyond the old extent, and each new entry is its predecessor plus \<open>ln i\<close>.
\<close>

theorem lfact_ln_factorial:
  assumes "lf_reachable c"
  shows "fst (lfact n c) = (if n \<le> 1 then 0 else ln (fact (nat n))) \<and>
         fst (lfact n c) = (\<Sum>i = 2..nat n. ln (real i)) \<and>
         take (length c) (snd (lfact n c)) = c \<and>
         length (snd (lfact n c)) = max (length c) (nat (n + 1)) \<and>
         (\<forall>i. length c \<le> i \<and> i < length (snd (lfact n c)) \<longrightarrow>
              snd (lfact n c) ! i = snd (lfact n c) ! (i - 1) + ln (real i))"
proof -
  have ok: "cache_ok c" by (rule lf_reachable_ok [OF assms])
  have v: "fst (lfact n c) = ln (fact (nat n))" by (rule lfact_spec(1) [OF ok])
  have small: "n \<le> 1 \<Longrightarrow> ln (fact (nat n) :: real) = 0"
  proof -
    assume "n \<le> 1"
    then have "nat n = 0 \<or> nat n = 1" by linarith
    then show ?thesis by auto
  qed
  have ok': "cache_ok (snd (lfact n c))" by (rule lfact_spec(2) [OF ok])
  have pos: "0 < length c" using ok by (simp add: cache_ok_def)
  have "snd (lfact n c) ! i = snd (lfact n c) ! (i - 1) + ln (real i)"
    if "length c \<le> i \<and> i < length (snd (lfact n c))" for i
    using cache_ok_step [OF ok', of i] that pos by simp
  then show ?thesis
    using v small lfact_spec(3,4) [OF ok, of n] by (simp add: ln_fact_sum)
qed

theorem lfact_ln_factorial_witness:
  "lf_reachable lfCache_init \<and>
   fst (lfact 3 lfCache_init) = ln 6 \<and>
   fst (lfact 3 lfCache_init) = ln 2 + ln 3 \<and>
   length (snd (lfact 3 lfCache_init)) = 4 \<and>
   snd (lfact 3 lfCache_init) ! 2 = snd (lfact 3 lfCache_init) ! 1 + ln 2"
proof -
  have s: "{2..3::nat} = {2, 3}" by auto
  have l: "length lfCache_init = 1" by (simp add: lfCache_init_def)
  from lfact_ln_factorial [OF lf_init, of 3] have
    a: "fst (lfact 3 lfCache_init) = ln (fact (nat 3))" and
    b: "fst (lfact 3 lfCache_init) = (\<Sum>i = 2..nat 3. ln (real i))" and
    c: "length (snd (lfact 3 lfCache_init)) = max (length lfCache_init) (nat (3 + 1))" and
    d: "\<forall>i. length lfCache_init \<le> i \<and> i < length (snd (lfact 3 lfCache_init)) \<longrightarrow>
          snd (lfact 3 lfCache_init) ! i = snd (lfact 3 lfCache_init) ! (i - 1) + ln (real i)"
    by simp_all
  have "snd (lfact 3 lfCache_init) ! 2 = snd (lfact 3 lfCache_init) ! (2 - 1) + ln (real 2)"
    using d c l by (intro d [rule_format]) simp
  then show ?thesis
    using a b c l s by (simp add: lf_init fact_numeral)
qed

subsection \<open>Claims on the hypergeometric test\<close>

text \<open>
  C1. For all integer arguments and every reachable cache, \<open>hypergeomPValue\<close> returns the
  value of the reference definition \<open>hypergeom_ref\<close>: 1 on the degenerate guards, 0 when
  \<open>k\<close> exceeds \<open>min n K\<close>, and otherwise the sum over \<open>i\<close> from \<open>max k (n - (N - K)) 0\<close> to
  \<open>min n K\<close> of \<open>exp (ln C(K,i) + ln C(N-K,n-i) - ln C(N,n))\<close>, clamped to 1. The model
  is a total function with no error value, so no input raises, and the cache it leaves
  behind is again a reachable one.
\<close>

theorem hypergeomPValue_reference:
  assumes "lf_reachable c"
  shows "fst (hypergeomPValue k n K N c) = hypergeom_ref k n K N \<and>
         lf_reachable (snd (hypergeomPValue k n K N c))"
  using hypergeomPValue_ref [OF lf_reachable_ok [OF assms], THEN conjunct1] hypergeomPValue_reachable [OF assms]
  by simp

theorem hypergeomPValue_reference_witness:
  "lf_reachable lfCache_init \<and>
   fst (hypergeomPValue 1 1 1 2 lfCache_init) = 1 / 2 \<and>
   fst (hypergeomPValue 0 1 1 2 lfCache_init) = 1 \<and>
   fst (hypergeomPValue 2 1 1 2 lfCache_init) = 0"
proof -
  have "hypergeom_ref 1 1 1 2 = 1 / 2"
    by (simp add: hypergeom_ref_def ln_choose_def exp_minus)
  moreover have "hypergeom_ref 0 1 1 2 = 1" "hypergeom_ref 2 1 1 2 = 0"
    by (simp_all add: hypergeom_ref_def)
  ultimately show ?thesis
    using hypergeomPValue_reference [OF lf_init, of 1 1 1 2]
      hypergeomPValue_reference [OF lf_init, of 0 1 1 2]
      hypergeomPValue_reference [OF lf_init, of 2 1 1 2]
    by (simp add: lf_init)
qed

text \<open>
  C2. For valid parameters (all positive, \<open>n \<le> N\<close>, \<open>K \<le> N\<close>, \<open>k \<le> min n K\<close>) the p-value
  lies in \<open>[0, 1]\<close>, and with \<open>n\<close>, \<open>K\<close>, \<open>N\<close> fixed a larger \<open>k\<close> never gives a larger
  p-value, whatever reachable state the cache is in at either call.
\<close>

theorem hypergeomPValue_range_antimono:
  assumes "lf_reachable c" "lf_reachable c'"
    and "hg_valid k n K N" "hg_valid k' n K N" "k \<le> k'"
  shows "0 \<le> fst (hypergeomPValue k n K N c) \<and>
         fst (hypergeomPValue k n K N c) \<le> 1 \<and>
         fst (hypergeomPValue k' n K N c') \<le> fst (hypergeomPValue k n K N c)"
  unfolding hypergeomPValue_ref [OF lf_reachable_ok [OF assms(1)], THEN conjunct1]
    hypergeomPValue_ref [OF lf_reachable_ok [OF assms(2)], THEN conjunct1]
  using hypergeom_ref_range [of k n K N] hypergeom_ref_antimono [OF assms(3,4,5)] by simp

theorem hypergeomPValue_range_antimono_witness:
  "lf_reachable lfCache_init \<and> hg_valid 1 2 2 3 \<and> hg_valid 2 2 2 3 \<and> (1::int) \<le> 2 \<and>
   0 \<le> fst (hypergeomPValue 1 2 2 3 lfCache_init) \<and>
   fst (hypergeomPValue 1 2 2 3 lfCache_init) \<le> 1 \<and>
   fst (hypergeomPValue 2 2 2 3 lfCache_init) \<le> fst (hypergeomPValue 1 2 2 3 lfCache_init)"
proof -
  have v: "hg_valid 1 2 2 3" "hg_valid 2 2 2 3" by (simp_all add: hg_valid_def)
  show ?thesis
    using hypergeomPValue_range_antimono [OF lf_init lf_init v] v by (simp add: lf_init)
qed

subsection \<open>Facts about the Benjamini-Hochberg loop\<close>

lemma bh_loop_length: "length (bh_loop m j rs) = length rs"
  by (induction j arbitrary: rs) (simp_all add: Let_def)

lemma bh_loop_above: "j \<le> i \<Longrightarrow> bh_loop m j rs ! i = rs ! i"
  by (induction j arbitrary: rs) (simp_all add: Let_def)

lemma bh_loop_fields:
  "i < length rs \<Longrightarrow> bh_loop m j rs ! i = (rs ! i)\<lparr>fdr := fdr (bh_loop m j rs ! i)\<rparr>"
proof (induction j arbitrary: rs)
  case 0
  show ?case by simp
next
  case (Suc j)
  let ?rs = "rs[j := (rs ! j)\<lparr>fdr :=
      (if int j < int m - 1 then min (pValue (rs ! j) * real m / real (j + 1)) (fdr (rs ! (j + 1)))
       else min (pValue (rs ! j) * real m / real (j + 1)) 1)\<rparr>]"
  have e: "bh_loop m (Suc j) rs = bh_loop m j ?rs" by (simp add: Let_def)
  have "bh_loop m j ?rs ! i = (?rs ! i)\<lparr>fdr := fdr (bh_loop m j ?rs ! i)\<rparr>"
    using Suc.IH [of ?rs] Suc.prems by simp
  then show ?case
    unfolding e using Suc.prems by (cases "i = j") simp_all
qed

lemma bh_loop_pValue: "i < length rs \<Longrightarrow> pValue (bh_loop m j rs ! i) = pValue (rs ! i)"
  using bh_loop_fields [of i rs m j] by (metis enrichment_result.select_convs(4) enrichment_result.surjective enrichment_result.update_convs(5))

lemma bh_loop_fdr:
  assumes "length rs = m" "j \<le> m" "i < j"
  shows "fdr (bh_loop m j rs ! i) =
     (if i + 1 < m
      then min (pValue (rs ! i) * real m / real (i + 1)) (fdr (bh_loop m j rs ! (i + 1)))
      else min (pValue (rs ! i) * real m / real (i + 1)) 1)"
  using assms
proof (induction j arbitrary: rs)
  case 0
  then show ?case by simp
next
  case (Suc j)
  define v where "v = (if int j < int m - 1
       then min (pValue (rs ! j) * real m / real (j + 1)) (fdr (rs ! (j + 1)))
       else min (pValue (rs ! j) * real m / real (j + 1)) 1)"
  define rs1 where "rs1 = rs[j := (rs ! j)\<lparr>fdr := v\<rparr>]"
  have e: "bh_loop m (Suc j) rs = bh_loop m j rs1" by (simp add: Let_def rs1_def v_def)
  have len: "length rs1 = m" using Suc.prems by (simp add: rs1_def)
  show ?case
  proof (cases "i = j")
    case True
    have "bh_loop m j rs1 ! j = rs1 ! j" by (rule bh_loop_above) simp
    then have a: "fdr (bh_loop m j rs1 ! j) = v" using Suc.prems by (simp add: rs1_def)
    have "bh_loop m j rs1 ! (j + 1) = rs1 ! (j + 1)" by (rule bh_loop_above) simp
    then have b: "bh_loop m j rs1 ! (j + 1) = rs ! (j + 1)" by (simp add: rs1_def)
    have c: "(int j < int m - 1) = (j + 1 < m)" by linarith
    show ?thesis unfolding e True a b unfolding v_def c ..
  next
    case False
    then have lt: "i < j" using Suc.prems by simp
    have "fdr (bh_loop m j rs1 ! i) =
     (if i + 1 < m
      then min (pValue (rs1 ! i) * real m / real (i + 1)) (fdr (bh_loop m j rs1 ! (i + 1)))
      else min (pValue (rs1 ! i) * real m / real (i + 1)) 1)"
      using Suc.prems lt len by (intro Suc.IH) simp_all
    moreover have "rs1 ! i = rs ! i" using False by (simp add: rs1_def)
    ultimately show ?thesis unfolding e by simp
  qed
qed

lemma map_insort_key: "map f (insort_key f x xs) = insort (f x) (map f xs)"
  by (induction xs) simp_all

lemma map_sort_key: "map f (sort_key f xs) = sort (map f xs)"
  by (induction xs) (simp_all add: map_insort_key)

lemma bhFDR_length: "length (bhFDR rs) = length rs"
  by (simp add: bhFDR_def Let_def bh_loop_length)

lemma bhFDR_fields:
  "i < length rs \<Longrightarrow> bhFDR rs ! i = (sort_key pValue rs ! i)\<lparr>fdr := fdr (bhFDR rs ! i)\<rparr>"
  using bh_loop_fields [of i "sort_key pValue rs" "length rs" "length rs"]
  by (simp add: bhFDR_def Let_def)

lemma bhFDR_pValue: "map pValue (bhFDR rs) = sort (map pValue rs)"
proof -
  have "map pValue (bhFDR rs) = map pValue (sort_key pValue rs)"
    by (rule nth_equalityI) (simp_all add: bhFDR_length, simp add: bhFDR_def Let_def bh_loop_pValue)
  then show ?thesis by (simp add: map_sort_key)
qed

lemma bhFDR_fdr:
  assumes "i < length rs"
  shows "fdr (bhFDR rs ! i) =
     (if i + 1 < length rs
      then min (pValue (bhFDR rs ! i) * real (length rs) / real (i + 1)) (fdr (bhFDR rs ! (i + 1)))
      else min (pValue (bhFDR rs ! i) * real (length rs) / real (i + 1)) 1)"
proof -
  let ?s = "sort_key pValue rs"
  have p: "pValue (bhFDR rs ! i) = pValue (?s ! i)"
    using assms by (simp add: bhFDR_def Let_def bh_loop_pValue)
  show ?thesis
    unfolding p using bh_loop_fdr [of ?s "length rs" "length rs" i] assms
    by (simp add: bhFDR_def Let_def)
qed

lemma bhFDR_sorted_fdr: "sorted (map fdr (bhFDR rs))"
proof -
  have "fdr (bhFDR rs ! i) \<le> fdr (bhFDR rs ! Suc i)" if "Suc i < length rs" for i
    using bhFDR_fdr [of i rs] that by simp
  then show ?thesis
    by (simp add: sorted_iff_nth_Suc bhFDR_length)
qed

lemma hd_sorted_Min:
  fixes xs :: "'a::linorder list"
  assumes "sorted xs" "xs \<noteq> []"
  shows "hd xs = Min (set xs)"
proof -
  obtain x ys where xs: "xs = x # ys" using assms(2) by (cases xs) auto
  then have "\<forall>y \<in> set xs. x \<le> y" using assms(1) by auto
  then have "Min (set xs) = x" by (intro Min_eqI) (auto simp: xs)
  then show ?thesis by (simp add: xs)
qed

lemma bhFDR_hd_pValue:
  assumes "rs \<noteq> []"
  shows "pValue (hd (bhFDR rs)) = Min (pValue ` set rs)"
proof -
  have ne: "bhFDR rs \<noteq> []" using assms bhFDR_length [of rs] by auto
  have "pValue (hd (bhFDR rs)) = hd (map pValue (bhFDR rs))" using ne by (simp add: hd_map)
  also have "\<dots> = hd (sort (map pValue rs))" by (simp add: bhFDR_pValue)
  also have "\<dots> = Min (set (sort (map pValue rs)))"
  proof (rule hd_sorted_Min)
    show "sorted (sort (map pValue rs))" by simp
    have "length (sort (map pValue rs)) \<noteq> 0" using assms by simp
    then show "sort (map pValue rs) \<noteq> []" by (metis list.size(3))
  qed
  finally show ?thesis by simp
qed

lemma bhFDR_fdr_Min:
  assumes "i < length rs"
  shows "fdr (bhFDR rs ! i) =
     Min (insert 1 ((\<lambda>r. pValue (bhFDR rs ! r) * real (length rs) / real (r + 1)) ` {i..<length rs}))"
  using assms
proof (induction rule: strict_inc_induct)
  case (base i)
  then have "{i..<length rs} = {i}" by auto
  then show ?case using bhFDR_fdr [of i rs] base by (simp add: min.commute)
next
  case (step i)
  let ?raw = "\<lambda>r. pValue (bhFDR rs ! r) * real (length rs) / real (r + 1)"
  have s: "{i..<length rs} = insert i {Suc i..<length rs}" using step.hyps by auto
  have "Min (insert 1 (?raw ` {i..<length rs})) =
        Min (insert (?raw i) (insert 1 (?raw ` {Suc i..<length rs})))"
    unfolding s by (simp add: insert_commute)
  also have "\<dots> = min (?raw i) (Min (insert 1 (?raw ` {Suc i..<length rs})))"
    by (rule Min_insert) simp_all
  also have "\<dots> = min (?raw i) (fdr (bhFDR rs ! Suc i))"
    using step.IH by simp
  also have "\<dots> = fdr (bhFDR rs ! i)"
    using bhFDR_fdr [of i rs] step.hyps by simp
  finally show ?case by simp
qed

lemma bhFDR_fdr_le_1: "i < length rs \<Longrightarrow> fdr (bhFDR rs ! i) \<le> 1"
  unfolding bhFDR_fdr_Min by (rule Min_le) simp_all

subsection \<open>Claims on the Benjamini-Hochberg correction\<close>

text \<open>
  C3. \<open>bhFDR\<close> leaves the rows in stable ascending order of p-value, with nothing but the
  \<open>fdr\<close> field changed, and its result is the array itself after the call. With \<open>m\<close>
  the length, the last row gets \<open>min (p * m / m) 1\<close> and the row of rank \<open>r = i + 1 < m\<close>
  gets \<open>min (p * m / r)\<close> of the next row's value; so the \<open>fdr\<close> values are non-decreasing
  along the returned list.
\<close>

theorem bhFDR_step_up:
  "length (bhFDR rs) = length rs \<and>
   (\<forall>i < length rs. bhFDR rs ! i = (sort_key pValue rs ! i)\<lparr>fdr := fdr (bhFDR rs ! i)\<rparr>) \<and>
   map pValue (bhFDR rs) = sort (map pValue rs) \<and>
   (rs \<noteq> [] \<longrightarrow>
      fdr (last (bhFDR rs)) =
        min (pValue (last (bhFDR rs)) * real (length rs) / real (length rs)) 1) \<and>
   (\<forall>i. i + 1 < length rs \<longrightarrow>
      fdr (bhFDR rs ! i) =
        min (pValue (bhFDR rs ! i) * real (length rs) / real (i + 1)) (fdr (bhFDR rs ! (i + 1)))) \<and>
   sorted (map fdr (bhFDR rs))"
proof -
  have "fdr (last (bhFDR rs)) =
      min (pValue (last (bhFDR rs)) * real (length rs) / real (length rs)) 1" if "rs \<noteq> []"
  proof -
    have ne: "bhFDR rs \<noteq> []" using that bhFDR_length [of rs] by auto
    have l: "last (bhFDR rs) = bhFDR rs ! (length rs - 1)"
      using ne by (simp add: last_conv_nth bhFDR_length)
    have "0 < length rs" using that by simp
    then show ?thesis
      unfolding l using bhFDR_fdr [of "length rs - 1" rs] by simp
  qed
  moreover have "fdr (bhFDR rs ! i) =
      min (pValue (bhFDR rs ! i) * real (length rs) / real (i + 1)) (fdr (bhFDR rs ! (i + 1)))"
    if "i + 1 < length rs" for i
    using bhFDR_fdr [of i rs] that by simp
  ultimately show ?thesis
    using bhFDR_fields [of _ rs] by (simp add: bhFDR_length bhFDR_pValue bhFDR_sorted_fdr)
qed

theorem bhFDR_step_up_witness:
  "bh_example \<noteq> [] \<and> 0 + 1 < length bh_example \<and>
   map term_id (bhFDR bh_example) = [''T1'', ''T2''] \<and>
   map pValue (bhFDR bh_example) = [1 / 2, 3 / 5] \<and>
   fdr (last (bhFDR bh_example)) = min (pValue (last (bhFDR bh_example)) * 2 / 2) 1 \<and>
   fdr (bhFDR bh_example ! 0) =
     min (pValue (bhFDR bh_example ! 0) * 2 / 1) (fdr (bhFDR bh_example ! 1)) \<and>
   sorted (map fdr (bhFDR bh_example))"
proof -
  have l: "length bh_example = 2" and ne: "bh_example \<noteq> []" by (simp_all add: bh_example_def)
  have s: "sort_key pValue bh_example = [bh_row ''T1'' (1 / 2) 5, bh_row ''T2'' (3 / 5) 6]"
    by (simp add: bh_example_def bh_row_def)
  have f: "\<forall>i < length bh_example.
      bhFDR bh_example ! i = (sort_key pValue bh_example ! i)\<lparr>fdr := fdr (bhFDR bh_example ! i)\<rparr>"
    using bhFDR_step_up [of bh_example] by blast
  have g: "term_id (bhFDR bh_example ! i) = term_id (sort_key pValue bh_example ! i)" if "i < 2" for i
  proof -
    have "bhFDR bh_example ! i = (sort_key pValue bh_example ! i)\<lparr>fdr := fdr (bhFDR bh_example ! i)\<rparr>"
      using f that l by simp
    then have "term_id (bhFDR bh_example ! i) =
        term_id ((sort_key pValue bh_example ! i)\<lparr>fdr := fdr (bhFDR bh_example ! i)\<rparr>)"
      by (rule arg_cong)
    then show ?thesis by simp
  qed
  have t: "term_id (bhFDR bh_example ! 0) = ''T1''" "term_id (bhFDR bh_example ! 1) = ''T2''"
    using g [of 0] g [of 1] unfolding s by (simp_all add: bh_row_def)
  have len: "length (bhFDR bh_example) = 2" using bhFDR_step_up [of bh_example] l by simp
  then obtain a b where ab: "bhFDR bh_example = [a, b]"
    by (cases "bhFDR bh_example" rule: list.exhaust; simp)
       (metis length_0_conv length_Suc_conv One_nat_def Suc_1 Suc_inject)
  have names: "map term_id (bhFDR bh_example) = [''T1'', ''T2'']"
    using t unfolding ab by simp
  have "map pValue (bhFDR bh_example) = sort (map pValue bh_example)"
    using bhFDR_step_up [of bh_example] by blast
  then have ps: "map pValue (bhFDR bh_example) = [1 / 2, 3 / 5]"
    by (simp add: bh_example_def bh_row_def)
  have last: "fdr (last (bhFDR bh_example)) =
      min (pValue (last (bhFDR bh_example)) * real (length bh_example) / real (length bh_example)) 1"
    using bhFDR_step_up [of bh_example] ne by blast
  have "\<forall>i. i + 1 < length bh_example \<longrightarrow>
      fdr (bhFDR bh_example ! i) =
        min (pValue (bhFDR bh_example ! i) * real (length bh_example) / real (i + 1))
            (fdr (bhFDR bh_example ! (i + 1)))"
    using bhFDR_step_up [of bh_example] by blast
  from this [rule_format, of 0] have first: "fdr (bhFDR bh_example ! 0) =
     min (pValue (bhFDR bh_example ! 0) * 2 / 1) (fdr (bhFDR bh_example ! 1))"
    using l by simp
  have srt: "sorted (map fdr (bhFDR bh_example))"
    using bhFDR_step_up [of bh_example] by blast
  show ?thesis
    using names ps last first srt l ne by simp
qed

text \<open>
  C4 as stated fails: with the two p-values \<open>1/2\<close> and \<open>3/5\<close> the row of the smallest
  p-value gets \<open>fdr = 3/5\<close>, while \<open>min (p_min * m) 1 = 1\<close>.
\<close>

theorem bhFDR_smallest_counterexample:
  "pValue (hd (bhFDR bh_example)) = 1 / 2 \<and>
   fdr (hd (bhFDR bh_example)) = 3 / 5 \<and>
   fdr (hd (bhFDR bh_example)) \<noteq>
     min (pValue (hd (bhFDR bh_example)) * real (length bh_example)) 1"
  by (simp add: bhFDR_def bh_example_def bh_row_def numeral_2_eq_2 Let_def)

text \<open>
  C4, amended. For a non-empty list of length \<open>m\<close>, the first row of the result carries the
  smallest p-value \<open>p_min\<close>, and its \<open>fdr\<close> is \<open>min (p_min * m)\<close> of the second row's
  \<open>fdr\<close> (of 1 when \<open>m = 1\<close>). This is the least of 1 and of \<open>p_r * m / r\<close> over all
  ranks \<open>r\<close>; it never exceeds \<open>min (p_min * m) 1\<close>.
\<close>

theorem bhFDR_smallest:
  assumes "rs \<noteq> []"
  shows "pValue (hd (bhFDR rs)) = Min (pValue ` set rs) \<and>
         fdr (hd (bhFDR rs)) =
           min (pValue (hd (bhFDR rs)) * real (length rs))
               (if length rs = 1 then 1 else fdr (bhFDR rs ! 1)) \<and>
         fdr (hd (bhFDR rs)) =
           Min (insert 1 ((\<lambda>r. pValue (bhFDR rs ! r) * real (length rs) / real (r + 1))
                            ` {0..<length rs})) \<and>
         fdr (hd (bhFDR rs)) \<le> min (pValue (hd (bhFDR rs)) * real (length rs)) 1"
proof -
  have pos: "0 < length rs" using assms by simp
  have ne: "bhFDR rs \<noteq> []" using assms bhFDR_length [of rs] by auto
  have h: "hd (bhFDR rs) = bhFDR rs ! 0" using ne by (simp add: hd_conv_nth)
  have a: "fdr (bhFDR rs ! 0) =
      min (pValue (bhFDR rs ! 0) * real (length rs))
          (if length rs = 1 then 1 else fdr (bhFDR rs ! 1))"
    using bhFDR_fdr [OF pos] pos by (cases "length rs = 1") auto
  have b: "fdr (bhFDR rs ! 0) \<le> 1" by (rule bhFDR_fdr_le_1 [OF pos])
  have c: "fdr (bhFDR rs ! 0) \<le> pValue (bhFDR rs ! 0) * real (length rs)"
    using a by simp
  show ?thesis
    unfolding h using bhFDR_hd_pValue [OF assms] a b c bhFDR_fdr_Min [OF pos]
    by (simp add: h)
qed

theorem bhFDR_smallest_witness:
  "bh_example \<noteq> [] \<and>
   pValue (hd (bhFDR bh_example)) = Min (pValue ` set bh_example) \<and>
   fdr (hd (bhFDR bh_example)) =
     min (pValue (hd (bhFDR bh_example)) * 2) (fdr (bhFDR bh_example ! 1)) \<and>
   fdr (hd (bhFDR bh_example)) \<le> min (pValue (hd (bhFDR bh_example)) * 2) 1"
proof -
  have l: "length bh_example = 2" and ne: "bh_example \<noteq> []" by (simp_all add: bh_example_def)
  from bhFDR_smallest [OF ne] have
    a: "pValue (hd (bhFDR bh_example)) = Min (pValue ` set bh_example)" and
    b: "fdr (hd (bhFDR bh_example)) =
           min (pValue (hd (bhFDR bh_example)) * real (length bh_example))
               (if length bh_example = 1 then 1 else fdr (bhFDR bh_example ! 1))" and
    c: "fdr (hd (bhFDR bh_example)) \<le> min (pValue (hd (bhFDR bh_example)) * real (length bh_example)) 1"
    by blast+
  have "fdr (hd (bhFDR bh_example)) =
     min (pValue (hd (bhFDR bh_example)) * 2) (fdr (bhFDR bh_example ! 1))"
    using b unfolding l by simp
  moreover have "fdr (hd (bhFDR bh_example)) \<le> min (pValue (hd (bhFDR bh_example)) * 2) 1"
    using c unfolding l by simp
  ultimately show ?thesis using a ne by blast
qed

subsection \<open>Facts about sets, dictionaries and the term loop\<close>

lemma set_set_add: "set (set_add s x) = insert x (set s)"
  by (auto simp: set_add_def)

lemma distinct_set_add: "distinct s \<Longrightarrow> distinct (set_add s x)"
  by (simp add: set_add_def)

lemma foldl_set_add:
  "distinct s \<Longrightarrow> distinct (foldl set_add s xs) \<and> set (foldl set_add s xs) = set s \<union> set xs"
  by (induction xs arbitrary: s) (simp_all add: set_set_add distinct_set_add)

lemma new_Set_props: "distinct (new_Set xs)" "set (new_Set xs) = set xs"
  using foldl_set_add [of "[]" xs] by (simp_all add: new_Set_def)

lemma length_new_Set: "length (new_Set xs) = card (set xs)"
  using new_Set_props [of xs] distinct_card [of "new_Set xs"] by simp

lemma row_of_fdr: "row_of query n N e r \<Longrightarrow> row_of query n N e (r\<lparr>fdr := x\<rparr>)"
  unfolding row_of_def by auto

lemma test_terms_rows:
  "r \<in> set (fst (test_terms query n N es acc c)) \<Longrightarrow>
   r \<in> set acc \<or> (\<exists>e \<in> set es. row_of query n N e r)"
proof (induction es arbitrary: acc c)
  case Nil
  then show ?case by simp
next
  case (Cons e es)
  obtain t d cat ms where e: "e = (t, d, cat, ms)" by (cases e) auto
  let ?hits = "filter (\<lambda>pid. pid \<in> set ms) query"
  show ?case
  proof (cases "?hits = []")
    case True
    then have "test_terms query n N (e # es) acc c = test_terms query n N es acc c"
      unfolding e by simp
    with Cons show ?thesis by auto
  next
    case False
    obtain p c' where p: "hypergeomPValue (int (length ?hits)) (int n) (int (length ms)) (int N) c = (p, c')"
      by (cases "hypergeomPValue (int (length ?hits)) (int n) (int (length ms)) (int N) c")
    define expectedK where "expectedK = (real (length ms) / real N) * real n"
    define fold where "fold = (if expectedK > 0 then real (length ?hits) / expectedK else 0)"
    define row where "row = \<lparr>term_id = t, description = d, category = cat, pValue = p,
                       fdr = 1, fold_enrichment = real_of_int \<lfloor>fold * 100 + 1 / 2\<rfloor> / 100,
                       geneCount = length ?hits, bgCount = length ms, totalGenes = n, totalBg = N,
                       genes = ?hits\<rparr>"
    have "test_terms query n N (e # es) acc c = test_terms query n N es (acc @ [row]) c'"
      unfolding e row_def fold_def expectedK_def using False p
      by (simp add: Let_def)
    with Cons.prems have "r \<in> set (fst (test_terms query n N es (acc @ [row]) c'))" by simp
    from Cons.IH [OF this] have "r \<in> set acc \<or> r = row \<or> (\<exists>e \<in> set es. row_of query n N e r)"
      by auto
    moreover have "row_of query n N e row"
      using False unfolding row_of_def row_def e by simp
    ultimately show ?thesis by auto
  qed
qed

lemma bhFDR_rows:
  assumes "r \<in> set (bhFDR rs)"
  shows "\<exists>r0 \<in> set rs. r = r0\<lparr>fdr := fdr r\<rparr>"
proof -
  from assms obtain i where i: "i < length rs" "r = bhFDR rs ! i"
    by (auto simp: in_set_conv_nth bhFDR_length)
  have "sort_key pValue rs ! i \<in> set (sort_key pValue rs)" using i(1) by (intro nth_mem) simp
  then have "sort_key pValue rs ! i \<in> set rs" by simp
  moreover have "r = (sort_key pValue rs ! i)\<lparr>fdr := fdr r\<rparr>"
    using bhFDR_fields [OF i(1)] i(2) by simp
  ultimately show ?thesis by blast
qed

lemma enrichment_rows:
  assumes "r \<in> set (bhFDR (fst (test_terms query n N es [] c)))"
  shows "\<exists>e \<in> set es. row_of query n N e r"
proof -
  from bhFDR_rows [OF assms] obtain r0
    where r0: "r0 \<in> set (fst (test_terms query n N es [] c))" "r = r0\<lparr>fdr := fdr r\<rparr>" by blast
  from test_terms_rows [OF r0(1)] obtain e where "e \<in> set es" "row_of query n N e r0" by auto
  then show ?thesis using r0(2) row_of_fdr by metis
qed

lemma foldl_nested_flat:
  "foldl (\<lambda>acc (k, vs). foldl (f k) acc vs) acc obj =
   foldl (\<lambda>acc (k, v). f k acc v) acc (flat_entries obj)"
proof (induction obj arbitrary: acc)
  case Nil
  show ?case by (simp add: flat_entries_def)
next
  case (Cons e obj)
  obtain k vs where e: "e = (k, vs)" by (cases e)
  have inner: "foldl (f k) a vs = foldl (\<lambda>acc (k, v). f k acc v) a (map (Pair k) vs)" for a
    by (induction vs arbitrary: a) simp_all
  have "flat_entries (e # obj) = map (Pair k) vs @ flat_entries obj"
    by (simp add: flat_entries_def e)
  then show ?case using Cons [of "foldl (f k) acc vs"] inner [of acc] by (simp add: e)
qed

lemma set_flat_entries: "set (flat_entries obj) = {(k, v). \<exists>vs. (k, vs) \<in> set obj \<and> v \<in> set vs}"
  by (auto simp: flat_entries_def)

lemma dict_inv_empty: "dict_inv mem [] []"
  by (simp add: dict_inv_def)

lemma dict_add_member_inv:
  assumes app: "\<And>info x. mem (app info x) = set_add (mem info) x"
    and fresh: "mem fresh = []"
    and inv: "dict_inv mem d ps"
  shows "dict_inv mem (dict_add_member app fresh d key m) (ps @ [(m, key)])"
proof -
  define d1 where "d1 = (if map_of d key = None then d @ [(key, fresh)] else d)"
  define upd where "upd = (\<lambda>(k, info). if k = key then (k, app info m) else (k, info))"
  have d': "dict_add_member app fresh d key m = map upd d1"
    by (simp add: dict_add_member_def d1_def upd_def)
  have dist: "distinct (map fst d)"
    and mems: "\<And>k info. (k, info) \<in> set d \<Longrightarrow>
                 distinct (mem info) \<and> set (mem info) = {m. (m, k) \<in> set ps}"
    and keys: "\<And>m k. (m, k) \<in> set ps \<Longrightarrow> k \<in> fst ` set d"
    using inv by (auto simp: dict_inv_def)
  have none: "map_of d key = None \<longleftrightarrow> key \<notin> fst ` set d"
    by (simp add: map_of_eq_None_iff)
  have fst_upd: "fst (upd e) = fst e" for e
    by (cases e) (simp add: upd_def)
  have keys1: "fst ` set d1 = insert key (fst ` set d)"
    using none by (auto simp: d1_def)
  have dist1: "distinct (map fst d1)"
    using dist none by (auto simp: d1_def)
  have mems1: "distinct (mem info) \<and> set (mem info) = {m. (m, k) \<in> set ps}"
    if "(k, info) \<in> set d1" for k info
  proof (cases "(k, info) \<in> set d")
    case True
    then show ?thesis by (rule mems)
  next
    case False
    with that have new: "k = key" "info = fresh" "key \<notin> fst ` set d"
      using none by (auto simp: d1_def split: if_splits)
    then have "{m. (m, k) \<in> set ps} = {}" using keys by auto
    then show ?thesis using new fresh by simp
  qed
  have "distinct (map fst (map upd d1))"
    using dist1 by (simp add: comp_def fst_upd)
  moreover have "distinct (mem info') \<and> set (mem info') = {x. (x, k) \<in> set (ps @ [(m, key)])}"
    if "(k, info') \<in> set (map upd d1)" for k info'
  proof -
    from that obtain info where i: "(k, info) \<in> set d1"
      and i': "info' = (if k = key then app info m else info)"
      by (auto simp: upd_def split: if_splits)
    from mems1 [OF i] show ?thesis
      unfolding i' by (auto simp: app set_set_add distinct_set_add)
  qed
  moreover have "k \<in> fst ` set (map upd d1)" if "(x, k) \<in> set (ps @ [(m, key)])" for x k
  proof -
    have "fst ` set (map upd d1) = fst ` set d1"
      by (simp add: image_image fst_upd)
    then show ?thesis using that keys keys1 by auto
  qed
  ultimately show ?thesis
    unfolding d' dict_inv_def by blast
qed

lemma dict_inv_members:
  assumes "dict_inv mem d ps" "(k, info) \<in> set d"
  shows "distinct (mem info)" "set (mem info) = {m. (m, k) \<in> set ps}"
  using assms by (auto simp: dict_inv_def)

lemma go_add_term_eq:
  "go_add_term cf pid tb a =
     (if go_considered cf a
      then dict_add_member (\<lambda>info x. info\<lparr>proteins := set_add (proteins info) x\<rparr>)
             \<lparr>info_desc = ann_description a,
              info_category = (if ann_category a = [] then ''Unknown'' else ann_category a),
              proteins = []\<rparr> tb (ann_term a) pid
      else tb)"
  by (simp add: go_add_term_def go_considered_def dict_add_member_def Let_def)

lemma go_fold_inv:
  "dict_inv proteins tb ps \<Longrightarrow>
   dict_inv proteins (foldl (\<lambda>tb (pid, a). go_add_term cf pid tb a) tb qs)
     (ps @ map (\<lambda>(pid, a). (pid, ann_term a)) (filter (\<lambda>(pid, a). go_considered cf a) qs))"
proof (induction qs arbitrary: tb ps)
  case Nil
  then show ?case by simp
next
  case (Cons q qs)
  obtain pid a where q: "q = (pid, a)" by (cases q)
  show ?case
  proof (cases "go_considered cf a")
    case False
    then show ?thesis using Cons.IH [OF Cons.prems] by (simp add: q go_add_term_eq)
  next
    case True
    have "dict_inv proteins (go_add_term cf pid tb a) (ps @ [(pid, ann_term a)])"
      unfolding go_add_term_eq using True Cons.prems
      by (simp add: dict_add_member_inv)
    from Cons.IH [OF this] show ?thesis using True by (simp add: q)
  qed
qed

lemma go_termBg_members:
  assumes "(t, info) \<in> set (go_build_termBg cf gd)"
  shows "distinct (proteins info)" "set (proteins info) = go_background cf gd t"
proof -
  let ?ps = "map (\<lambda>(pid, a). (pid, ann_term a))
               (filter (\<lambda>(pid, a). go_considered cf a) (flat_entries gd))"
  have b: "go_build_termBg cf gd = foldl (\<lambda>tb (pid, a). go_add_term cf pid tb a) [] (flat_entries gd)"
    unfolding go_build_termBg_def by (rule foldl_nested_flat)
  have inv: "dict_inv proteins (go_build_termBg cf gd) ?ps"
    unfolding b using go_fold_inv [OF dict_inv_empty, of cf "flat_entries gd"] by simp
  show "distinct (proteins info)" by (rule dict_inv_members(1) [OF inv assms])
  have "{m. (m, t) \<in> set ?ps} = go_background cf gd t"
    by (auto simp: go_background_def set_flat_entries)
  then show "set (proteins info) = go_background cf gd t"
    using dict_inv_members(2) [OF inv assms] by simp
qed

lemma go_background_keys: "go_background cf gd t \<subseteq> fst ` set gd"
  by (force simp: go_background_def)

lemma kegg_add_pathway_eq:
  "kegg_add_pathway names gene pb pw =
     dict_add_member (\<lambda>info x. info\<lparr>pw_genes := set_add (pw_genes info) x\<rparr>)
       \<lparr>pw_name = (case map_of names (strip_path pw) of
                     None \<Rightarrow> pw | Some nm \<Rightarrow> if nm = [] then pw else nm),
        pw_genes = []\<rparr> pb pw gene"
  by (simp add: kegg_add_pathway_def dict_add_member_def Let_def)

lemma kegg_fold_inv:
  "dict_inv pw_genes pb ps \<Longrightarrow>
   dict_inv pw_genes (foldl (\<lambda>pb (gene, pw). kegg_add_pathway names gene pb pw) pb qs) (ps @ qs)"
proof (induction qs arbitrary: pb ps)
  case Nil
  then show ?case by simp
next
  case (Cons q qs)
  obtain gene pw where q: "q = (gene, pw)" by (cases q)
  have "dict_inv pw_genes (kegg_add_pathway names gene pb pw) (ps @ [(gene, pw)])"
    unfolding kegg_add_pathway_eq using Cons.prems by (simp add: dict_add_member_inv)
  from Cons.IH [OF this] show ?case by (simp add: q)
qed

lemma kegg_pathwayBg_members:
  assumes "(pw, info) \<in> set (kegg_build_pathwayBg names gp)"
  shows "distinct (pw_genes info)" "set (pw_genes info) = kegg_background gp pw"
proof -
  have b: "kegg_build_pathwayBg names gp =
      foldl (\<lambda>pb (gene, pw). kegg_add_pathway names gene pb pw) [] (flat_entries gp)"
    unfolding kegg_build_pathwayBg_def by (rule foldl_nested_flat)
  have inv: "dict_inv pw_genes (kegg_build_pathwayBg names gp) (flat_entries gp)"
    unfolding b using kegg_fold_inv [OF dict_inv_empty, of names "flat_entries gp"] by simp
  show "distinct (pw_genes info)" by (rule dict_inv_members(1) [OF inv assms])
  have "{m. (m, pw) \<in> set (flat_entries gp)} = kegg_background gp pw"
    by (auto simp: kegg_background_def set_flat_entries)
  then show "set (pw_genes info) = kegg_background gp pw"
    using dict_inv_members(2) [OF inv assms] by simp
qed

lemma kegg_background_keys: "kegg_background gp pw \<subseteq> fst ` set gp"
  by (force simp: kegg_background_def)

lemma kegg_query_names_fold:
  "distinct acc \<Longrightarrow>
   distinct (foldl (\<lambda>names pid. case f pid of None \<Rightarrow> names | Some g \<Rightarrow> set_add names g) acc q) \<and>
   set (foldl (\<lambda>names pid. case f pid of None \<Rightarrow> names | Some g \<Rightarrow> set_add names g) acc q) =
     set acc \<union> {g. \<exists>pid \<in> set q. f pid = Some g}"
proof (induction q arbitrary: acc)
  case Nil
  then show ?case by simp
next
  case (Cons pid q)
  show ?case
  proof (cases "f pid")
    case None
    then show ?thesis using Cons.IH [OF Cons.prems] by auto
  next
    case (Some g)
    then show ?thesis
      using Cons.IH [OF distinct_set_add [OF Cons.prems, of g]] by (auto simp: set_set_add)
  qed
qed

lemma kegg_query_names_props:
  "distinct (kegg_query_names up low (new_Set (map fst gp)) al info q)"
  "set (kegg_query_names up low (new_Set (map fst gp)) al info q) = kegg_resolved up low gp al info q"
  using kegg_query_names_fold [of "[]" "kegg_resolve up low (new_Set (map fst gp)) al info" q]
  by (simp_all add: kegg_query_names_def kegg_resolved_def)

lemma go_resolved_filter:
  "set (filter (\<lambda>pid. map_of gd pid \<noteq> None) q) = go_resolved gd q"
  by (auto simp: go_resolved_def map_of_eq_None_iff)

lemma length_filter_mem_le:
  assumes "distinct q" "distinct ms"
  shows "length (filter (\<lambda>x. x \<in> set ms) q) \<le> length ms"
proof -
  have "distinct (filter (\<lambda>x. x \<in> set ms) q)" using assms(1) by simp
  then have "length (filter (\<lambda>x. x \<in> set ms) q) = card (set (filter (\<lambda>x. x \<in> set ms) q))"
    by (rule distinct_card [symmetric])
  also have "\<dots> \<le> card (set ms)" by (intro card_mono) auto
  also have "\<dots> = length ms" using assms(2) by (simp add: distinct_card)
  finally show ?thesis .
qed

lemma length_members_le_keys:
  assumes "distinct ms" "set ms \<subseteq> fst ` set obj"
  shows "length ms \<le> card (fst ` set obj)" "length ms \<le> length obj"
proof -
  have "length ms = card (set ms)" using assms(1) by (simp add: distinct_card)
  also have "\<dots> \<le> card (fst ` set obj)" using assms(2) by (intro card_mono) auto
  finally show a: "length ms \<le> card (fst ` set obj)" .
  have "card (fst ` set obj) \<le> card (set obj)" by (intro card_image_le) simp
  also have "\<dots> \<le> length obj" by (rule card_length)
  finally show "length ms \<le> length obj" using a by simp
qed

lemma runGOEnrichment_results:
  assumes "r \<in> set (results (fst (runGOEnrichment q (Some gd) cf c)))"
  shows "\<exists>t info. (t, info) \<in> set (go_build_termBg cf gd) \<and>
           row_of (filter (\<lambda>pid. map_of gd pid \<noteq> None) q)
             (length (filter (\<lambda>pid. map_of gd pid \<noteq> None) q)) (length gd)
             (t, info_desc info, info_category info, proteins info) r"
proof -
  let ?q = "filter (\<lambda>pid. map_of gd pid \<noteq> None) q"
  let ?es = "map (\<lambda>(term, info). (term, info_desc info, info_category info, proteins info))
               (go_build_termBg cf gd)"
  have "r \<in> set (bhFDR (fst (test_terms ?q (length ?q) (length gd) ?es [] c)))"
    using assms by (auto simp: runGOEnrichment_def Let_def split_def split: if_splits)
  from enrichment_rows [OF this] obtain e where "e \<in> set ?es" "row_of ?q (length ?q) (length gd) e r"
    by blast
  then show ?thesis by auto
qed

lemma runKEGGEnrichment_results:
  assumes "r \<in> set (results (fst (runKEGGEnrichment up low q
              (Some \<lparr>pathways = names, gene_pathways = Some gp\<rparr>) al info c)))"
  shows "\<exists>pw pi. (pw, pi) \<in> set (kegg_build_pathwayBg (case names of None \<Rightarrow> [] | Some ns \<Rightarrow> ns) gp) \<and>
           row_of (kegg_query_names up low (new_Set (map fst gp)) al info q)
             (length (kegg_query_names up low (new_Set (map fst gp)) al info q))
             (length (new_Set (map fst gp)))
             (pw, pw_name pi, ''KEGG Pathway'', pw_genes pi) r"
proof -
  let ?q = "kegg_query_names up low (new_Set (map fst gp)) al info q"
  let ?es = "map (\<lambda>(pw, info). (pw, pw_name info, ''KEGG Pathway'', pw_genes info))
               (kegg_build_pathwayBg (case names of None \<Rightarrow> [] | Some ns \<Rightarrow> ns) gp)"
  have "r \<in> set (bhFDR (fst (test_terms ?q (length ?q) (length (new_Set (map fst gp))) ?es [] c)))"
    using assms by (auto simp: runKEGGEnrichment_def Let_def split_def split: if_splits)
  from enrichment_rows [OF this]
  obtain e where "e \<in> set ?es" "row_of ?q (length ?q) (length (new_Set (map fst gp))) e r"
    by blast
  then show ?thesis by auto
qed

lemma go_example_termBg:
  "go_build_termBg None go_example =
     [(''T'', \<lparr>info_desc = ''d'', info_category = ''Unknown'', proteins = [''a'']\<rparr>)]"
  by (simp add: go_build_termBg_def go_example_def go_add_term_def js_truthy_def set_add_def)

lemma kegg_example_pathwayBg:
  "kegg_build_pathwayBg [(''x'', ''Glycolysis'')] [(''a'', [''path:x''])] =
     [(''path:x'', \<lparr>pw_name = ''Glycolysis'', pw_genes = [''a'']\<rparr>)]"
  by (simp add: kegg_build_pathwayBg_def kegg_add_pathway_def strip_path_def set_add_def)

lemma bhFDR_single: "bhFDR [r] = [r\<lparr>fdr := min (pValue r * 1 / 1) 1\<rparr>]"
  by (simp add: bhFDR_def)

lemma runGOEnrichment_example:
  "results (fst (runGOEnrichment [''a''] (Some go_example) None c)) =
     [\<lparr>term_id = ''T'', description = ''d'', category = ''Unknown'',
       pValue = fst (hypergeomPValue 1 1 1 1 c),
       fdr = min (fst (hypergeomPValue 1 1 1 1 c)) 1, fold_enrichment = 1,
       geneCount = 1, bgCount = 1, totalGenes = 1, totalBg = 1, genes = [''a'']\<rparr>]"
  by (simp add: runGOEnrichment_def go_example_termBg Let_def split_def bhFDR_single)
     (simp add: go_example_def)

lemma runKEGGEnrichment_example:
  "results (fst (runKEGGEnrichment up low [''a''] (Some kegg_example) None None c)) =
     [\<lparr>term_id = ''path:x'', description = ''Glycolysis'', category = ''KEGG Pathway'',
       pValue = fst (hypergeomPValue 1 1 1 1 c),
       fdr = min (fst (hypergeomPValue 1 1 1 1 c)) 1, fold_enrichment = 1,
       geneCount = 1, bgCount = 1, totalGenes = 1, totalBg = 1, genes = [''a'']\<rparr>]"
  by (simp add: runKEGGEnrichment_def kegg_example_def kegg_example_pathwayBg Let_def split_def
        bhFDR_single new_Set_def set_add_def kegg_query_names_def kegg_resolve_def)

subsection \<open>Claims on the enrichment drivers\<close>

text \<open>
  C10. Every row that \<open>runGOEnrichment\<close> or \<open>runKEGGEnrichment\<close> returns has
  \<open>geneCount \<ge> 1\<close>, \<open>geneCount\<close> equal to the length of \<open>genes\<close>, and every identifier in
  \<open>genes\<close> in the resolved query set and in the background gene set of the row's term; and
  when the query list has no duplicates, \<open>geneCount \<le> bgCount \<le> totalBg\<close> and
  \<open>geneCount \<le> totalGenes\<close>.
\<close>

theorem enrichment_row_invariants:
  "(\<forall>r \<in> set (results (fst (runGOEnrichment q (Some gd) cf c))).
      1 \<le> geneCount r \<and> geneCount r = length (genes r) \<and>
      set (genes r) \<subseteq> go_resolved gd q \<inter> go_background cf gd (term_id r) \<and>
      (distinct q \<longrightarrow>
         geneCount r \<le> bgCount r \<and> bgCount r \<le> totalBg r \<and> geneCount r \<le> totalGenes r)) \<and>
   (\<forall>r \<in> set (results (fst (runKEGGEnrichment up low q
                   (Some \<lparr>pathways = names, gene_pathways = Some gp\<rparr>) al info c))).
      1 \<le> geneCount r \<and> geneCount r = length (genes r) \<and>
      set (genes r) \<subseteq> kegg_resolved up low gp al info q \<inter> kegg_background gp (term_id r) \<and>
      (distinct q \<longrightarrow>
         geneCount r \<le> bgCount r \<and> bgCount r \<le> totalBg r \<and> geneCount r \<le> totalGenes r))"
proof (rule conjI; rule ballI)
  fix r
  assume "r \<in> set (results (fst (runGOEnrichment q (Some gd) cf c)))"
  from runGOEnrichment_results [OF this] obtain t info
    where e: "(t, info) \<in> set (go_build_termBg cf gd)"
      and row: "row_of (filter (\<lambda>pid. map_of gd pid \<noteq> None) q)
             (length (filter (\<lambda>pid. map_of gd pid \<noteq> None) q)) (length gd)
             (t, info_desc info, info_category info, proteins info) r"
    by blast
  let ?q = "filter (\<lambda>pid. map_of gd pid \<noteq> None) q"
  have t: "term_id r = t" and g: "genes r = filter (\<lambda>pid. pid \<in> set (proteins info)) ?q"
    and k: "geneCount r = length (genes r)" "0 < geneCount r"
    and K: "bgCount r = length (proteins info)"
    and n: "totalGenes r = length ?q" and N: "totalBg r = length gd"
    using row unfolding row_of_def fst_conv snd_conv by blast+
  note m = go_termBg_members [OF e]
  have sub: "set (genes r) \<subseteq> go_resolved gd q \<inter> go_background cf gd (term_id r)"
    unfolding g t using m(2) go_resolved_filter [of gd q] by auto
  have one: "1 \<le> geneCount r" using k(2) by linarith
  have "geneCount r \<le> bgCount r" if "distinct q"
    unfolding k(1) g K using that m(1) by (intro length_filter_mem_le) simp_all
  moreover have "bgCount r \<le> totalBg r"
    unfolding K N using m go_background_keys [of cf gd t] by (intro length_members_le_keys(2)) simp_all
  moreover have "geneCount r \<le> totalGenes r"
    unfolding k(1) g n by (rule length_filter_le)
  ultimately show "1 \<le> geneCount r \<and> geneCount r = length (genes r) \<and>
      set (genes r) \<subseteq> go_resolved gd q \<inter> go_background cf gd (term_id r) \<and>
      (distinct q \<longrightarrow>
         geneCount r \<le> bgCount r \<and> bgCount r \<le> totalBg r \<and> geneCount r \<le> totalGenes r)"
    using k(1) one sub by blast
next
  fix r
  assume "r \<in> set (results (fst (runKEGGEnrichment up low q
                   (Some \<lparr>pathways = names, gene_pathways = Some gp\<rparr>) al info c)))"
  from runKEGGEnrichment_results [OF this] obtain pw pi
    where e: "(pw, pi) \<in> set (kegg_build_pathwayBg (case names of None \<Rightarrow> [] | Some ns \<Rightarrow> ns) gp)"
      and row: "row_of (kegg_query_names up low (new_Set (map fst gp)) al info q)
             (length (kegg_query_names up low (new_Set (map fst gp)) al info q))
             (length (new_Set (map fst gp)))
             (pw, pw_name pi, ''KEGG Pathway'', pw_genes pi) r"
    by blast
  let ?q = "kegg_query_names up low (new_Set (map fst gp)) al info q"
  have t: "term_id r = pw" and g: "genes r = filter (\<lambda>x. x \<in> set (pw_genes pi)) ?q"
    and k: "geneCount r = length (genes r)" "0 < geneCount r"
    and K: "bgCount r = length (pw_genes pi)"
    and n: "totalGenes r = length ?q" and N: "totalBg r = length (new_Set (map fst gp))"
    using row unfolding row_of_def fst_conv snd_conv by blast+
  note m = kegg_pathwayBg_members [OF e]
  note qn = kegg_query_names_props [of up low gp al info q]
  have sub: "set (genes r) \<subseteq> kegg_resolved up low gp al info q \<inter> kegg_background gp (term_id r)"
    unfolding g t using m(2) qn(2) by auto
  have one: "1 \<le> geneCount r" using k(2) by linarith
  have "geneCount r \<le> bgCount r"
    unfolding k(1) g K using qn(1) m(1) by (intro length_filter_mem_le) simp_all
  moreover have "bgCount r \<le> totalBg r"
    unfolding K N length_new_Set using m kegg_background_keys [of gp pw]
    by (simp add: length_members_le_keys(1))
  moreover have "geneCount r \<le> totalGenes r"
    unfolding k(1) g n by (rule length_filter_le)
  ultimately show "1 \<le> geneCount r \<and> geneCount r = length (genes r) \<and>
      set (genes r) \<subseteq> kegg_resolved up low gp al info q \<inter> kegg_background gp (term_id r) \<and>
      (distinct q \<longrightarrow>
         geneCount r \<le> bgCount r \<and> bgCount r \<le> totalBg r \<and> geneCount r \<le> totalGenes r)"
    using k(1) one sub by blast
qed

theorem enrichment_row_invariants_witness:
  "distinct [''a''] \<and>
   hd (results (fst (runGOEnrichment [''a''] (Some go_example) None lfCache_init)))
     \<in> set (results (fst (runGOEnrichment [''a''] (Some go_example) None lfCache_init))) \<and>
   hd (results (fst (runKEGGEnrichment id id [''a''] (Some kegg_example) None None lfCache_init)))
     \<in> set (results (fst (runKEGGEnrichment id id [''a''] (Some kegg_example) None None
           lfCache_init))) \<and>
   (let r = hd (results (fst (runGOEnrichment [''a''] (Some go_example) None lfCache_init)))
    in 1 \<le> geneCount r \<and> geneCount r = length (genes r) \<and>
       set (genes r) \<subseteq> go_resolved go_example [''a''] \<inter> go_background None go_example (term_id r) \<and>
       geneCount r \<le> bgCount r \<and> bgCount r \<le> totalBg r \<and> geneCount r \<le> totalGenes r) \<and>
   (let r = hd (results (fst (runKEGGEnrichment id id [''a''] (Some kegg_example) None None
                  lfCache_init)))
    in 1 \<le> geneCount r \<and> geneCount r = length (genes r) \<and>
       set (genes r) \<subseteq> kegg_resolved id id [(''a'', [''path:x''])] None None [''a'']
                         \<inter> kegg_background [(''a'', [''path:x''])] (term_id r) \<and>
       geneCount r \<le> bgCount r \<and> bgCount r \<le> totalBg r \<and> geneCount r \<le> totalGenes r)"
proof -
  have d: "distinct [''a'']" by simp
  have k: "kegg_example = \<lparr>pathways = Some [(''x'', ''Glycolysis'')],
      gene_pathways = Some [(''a'', [''path:x''])]\<rparr>" by (simp add: kegg_example_def)
  have go: "hd (results (fst (runGOEnrichment [''a''] (Some go_example) None lfCache_init)))
     \<in> set (results (fst (runGOEnrichment [''a''] (Some go_example) None lfCache_init)))"
    by (rule hd_in_set) (simp add: runGOEnrichment_example)
  have kegg: "hd (results (fst (runKEGGEnrichment id id [''a''] (Some kegg_example) None None
        lfCache_init)))
     \<in> set (results (fst (runKEGGEnrichment id id [''a''] (Some kegg_example) None None
           lfCache_init)))"
    by (rule hd_in_set) (simp add: runKEGGEnrichment_example)
  note inv = enrichment_row_invariants [of "[''a'']" go_example None lfCache_init id id
        "Some [(''x'', ''Glycolysis'')]" "[(''a'', [''path:x''])]" None None, folded k]
  show ?thesis
    unfolding Let_def
    using inv [THEN conjunct1, rule_format, OF go] inv [THEN conjunct2, rule_format, OF kegg]
      d go kegg by blast
qed

lemma runKEGGEnrichment_mapped:
  "mapped (stats (fst (runKEGGEnrichment up low q
      (Some \<lparr>pathways = names, gene_pathways = Some gp\<rparr>) al info c))) =
   card (kegg_resolved up low gp al info q)"
proof -
  let ?q = "kegg_query_names up low (new_Set (map fst gp)) al info q"
  have "length ?q = card (kegg_resolved up low gp al info q)"
    using kegg_query_names_props [of up low gp al info q] distinct_card [of ?q] by simp
  then show ?thesis
    by (auto simp: runKEGGEnrichment_def Let_def split_def)
qed

lemma runGOEnrichment_mapped:
  "mapped (stats (fst (runGOEnrichment q (Some gd) cf c))) =
   length (filter (\<lambda>pid. pid \<in> fst ` set gd) q)"
proof -
  have "(\<lambda>pid. map_of gd pid \<noteq> None) = (\<lambda>pid. pid \<in> fst ` set gd)"
    by (simp add: map_of_eq_None_iff)
  then show ?thesis
    by (auto simp: runGOEnrichment_def Let_def split_def)
qed

lemma enrichment_nothing_mapped:
  "mapped (stats (fst (runGOEnrichment q gd cf c))) = 0 \<Longrightarrow>
     results (fst (runGOEnrichment q gd cf c)) = []"
  "mapped (stats (fst (runKEGGEnrichment up low q kd al info c))) = 0 \<Longrightarrow>
     results (fst (runKEGGEnrichment up low q kd al info c)) = []"
  by (auto simp: runGOEnrichment_def runKEGGEnrichment_def Let_def split_def
      split: option.splits if_splits)

lemma runKEGGEnrichment_total:
  "total (stats (fst (runKEGGEnrichment up low q kd al info c))) = length q"
  by (auto simp: runKEGGEnrichment_def Let_def split_def split: option.splits)

lemma runGOEnrichment_total:
  "total (stats (fst (runGOEnrichment q (Some gd) cf c))) = length q"
  by (auto simp: runGOEnrichment_def Let_def split_def)

lemma enrichment_no_background:
  "results (fst (runGOEnrichment q None cf c)) = [] \<and>
   mapped (stats (fst (runGOEnrichment q None cf c))) = 0"
  "results (fst (runGOEnrichment q (Some []) cf c)) = [] \<and>
   mapped (stats (fst (runGOEnrichment q (Some []) cf c))) = 0"
  "results (fst (runKEGGEnrichment up low q None al info c)) = [] \<and>
   mapped (stats (fst (runKEGGEnrichment up low q None al info c))) = 0"
  "results (fst (runKEGGEnrichment up low q (Some \<lparr>pathways = names, gene_pathways = None\<rparr>)
      al info c)) = [] \<and>
   mapped (stats (fst (runKEGGEnrichment up low q (Some \<lparr>pathways = names, gene_pathways = None\<rparr>)
      al info c))) = 0"
  by (simp_all add: runGOEnrichment_def runKEGGEnrichment_def)

lemma kegg_query_names_empty_bg: "kegg_query_names up low [] al info q = []"
proof -
  have t: "kegg_try_aliases up low [] as = None" for as
    by (induction as) simp_all
  have r: "kegg_resolve up low [] al info pid = None" for pid
    by (simp add: kegg_resolve_def t split: option.splits)
  have "foldl (\<lambda>names pid. case kegg_resolve up low [] al info pid of
          None \<Rightarrow> names | Some g \<Rightarrow> set_add names g) acc q = acc" for acc
    by (induction q arbitrary: acc) (simp_all add: r)
  then show ?thesis by (simp add: kegg_query_names_def)
qed

lemma runKEGGEnrichment_empty_background:
  "results (fst (runKEGGEnrichment up low q (Some \<lparr>pathways = names, gene_pathways = Some []\<rparr>)
      al info c)) = [] \<and>
   mapped (stats (fst (runKEGGEnrichment up low q (Some \<lparr>pathways = names, gene_pathways = Some []\<rparr>)
      al info c))) = 0"
  by (simp add: runKEGGEnrichment_def new_Set_def kegg_query_names_empty_bg)

text \<open>
  C5 at a query that names the protein \<open>a\<close> twice. In GO mode \<open>n\<close> counts both entries:
  \<open>mapped\<close> and \<open>totalGenes\<close> are 2 for one resolved identifier, and the row has
  \<open>geneCount = 2\<close> over \<open>bgCount = 1\<close>. In KEGG mode the same query gives \<open>mapped = 1\<close>.
\<close>

theorem runGOEnrichment_duplicate_query:
  "card (go_resolved go_example [''a'', ''a'']) = 1 \<and>
   mapped (stats (fst (runGOEnrichment [''a'', ''a''] (Some go_example) None lfCache_init))) = 2 \<and>
   map totalGenes (results (fst (runGOEnrichment [''a'', ''a''] (Some go_example) None lfCache_init)))
     = [2] \<and>
   map geneCount (results (fst (runGOEnrichment [''a'', ''a''] (Some go_example) None lfCache_init)))
     = [2] \<and>
   map bgCount (results (fst (runGOEnrichment [''a'', ''a''] (Some go_example) None lfCache_init)))
     = [1] \<and>
   mapped (stats (fst (runKEGGEnrichment id id [''a'', ''a''] (Some kegg_example) None None
     lfCache_init))) = 1"
proof -
  have "go_resolved go_example [''a'', ''a''] = {''a''}"
    by (auto simp: go_resolved_def go_example_def)
  moreover have "fst (runGOEnrichment [''a'', ''a''] (Some go_example) None lfCache_init) =
    \<lparr>results = [\<lparr>term_id = ''T'', description = ''d'', category = ''Unknown'', pValue = 1,
         fdr = 1, fold_enrichment = 1, geneCount = 2, bgCount = 1, totalGenes = 2, totalBg = 1,
         genes = [''a'', ''a'']\<rparr>],
      stats = \<lparr>mapped = 2, total = 2, termsTotal = 1\<rparr>\<rparr>"
    by (simp add: runGOEnrichment_def go_example_termBg Let_def hypergeomPValue_def bhFDR_single)
       (simp add: go_example_def)
  moreover have "mapped (stats (fst (runKEGGEnrichment id id [''a'', ''a''] (Some kegg_example)
      None None lfCache_init))) = 1"
    by (simp add: runKEGGEnrichment_def kegg_example_def kegg_example_pathwayBg Let_def split_def
        new_Set_def set_add_def kegg_query_names_def kegg_resolve_def)
  ultimately show ?thesis by simp
qed

text \<open>
  C6 at a missing \<^verbatim>\<open>goData\<close> and a query of one identifier: \<open>runGOEnrichment\<close> reports
  \<open>total = 0\<close>, while \<open>runKEGGEnrichment\<close> without its data reports \<open>total = 1\<close>, the length
  of the query. Both return no rows and \<open>mapped = 0\<close>.
\<close>

theorem runGOEnrichment_absent_data_total:
  "length [''a''] = 1 \<and>
   total (stats (fst (runGOEnrichment [''a''] None None lfCache_init))) = 0 \<and>
   results (fst (runGOEnrichment [''a''] None None lfCache_init)) = [] \<and>
   mapped (stats (fst (runGOEnrichment [''a''] None None lfCache_init))) = 0 \<and>
   total (stats (fst (runKEGGEnrichment id id [''a''] None None None lfCache_init))) = 1"
  by (simp add: runGOEnrichment_def runKEGGEnrichment_def)

subsection \<open>Facts about the Jaccard matrix\<close>

declare jaccard_inner.simps [simp del] jaccard_outer.simps [simp del]

lemma square_put:
  assumes "square n d"
  shows "square n (d[i := (d ! i)[j := v]])"
proof -
  have "length (d[i := (d ! i)[j := v]] ! x) = n" if "x < n" for x
    using assms that by (cases "x = i") (simp_all add: square_def)
  then show ?thesis using assms by (simp add: square_def)
qed

lemma nth_put:
  assumes "square n d" "i < n" "j < n"
  shows "d[i := (d ! i)[j := v]] ! x ! y = (if x = i \<and> y = j then v else d ! x ! y)"
  using assms by (auto simp: square_def nth_list_update)

lemma jaccard_pair_ref:
  assumes "distinct a" "distinct b"
  shows "jaccard_pair a b = jaccard_ref (set a) (set b)"
proof -
  have f: "set (filter (\<lambda>g. g \<in> set b) a) = set a \<inter> set b" by auto
  have "distinct (filter (\<lambda>g. g \<in> set b) a)" using assms(1) by simp
  then have i: "length (filter (\<lambda>g. g \<in> set b) a) = card (set a \<inter> set b)"
    using distinct_card [of "filter (\<lambda>g. g \<in> set b) a"] f by simp
  have la: "length a = card (set a)" and lb: "length b = card (set b)"
    using assms by (simp_all add: distinct_card)
  have "card (set a) + card (set b) = card (set a \<union> set b) + card (set a \<inter> set b)"
    by (rule card_Un_Int) simp_all
  then have u: "int (length a) + int (length b) - int (length (filter (\<lambda>g. g \<in> set b) a)) =
      int (card (set a \<union> set b))"
    unfolding i la lb by linarith
  have z: "card (set a \<union> set b) = 0 \<longleftrightarrow> set a = {} \<and> set b = {}" by auto
  have "jaccard_pair a b =
      (if int (card (set a \<union> set b)) = 0 then 1
       else 1 - real_of_int (int (length (filter (\<lambda>g. g \<in> set b) a))) /
                real_of_int (int (card (set a \<union> set b))))"
    unfolding jaccard_pair_def Let_def u ..
  also have "\<dots> = jaccard_ref (set a) (set b)"
    unfolding i jaccard_ref_def using z by simp
  finally show ?thesis .
qed

lemma jaccard_ref_sym: "jaccard_ref A B = jaccard_ref B A"
  by (simp add: jaccard_ref_def Int_commute Un_commute conj_commute)

lemma jaccard_ref_range:
  assumes "finite A" "finite B"
  shows "0 \<le> jaccard_ref A B" "jaccard_ref A B \<le> 1"
proof -
  have "card (A \<inter> B) \<le> card (A \<union> B)" using assms by (intro card_mono) auto
  then have "real (card (A \<inter> B)) / real (card (A \<union> B)) \<le> 1"
    by (cases "card (A \<union> B) = 0") (simp_all add: divide_le_eq_1)
  then show "0 \<le> jaccard_ref A B" by (simp add: jaccard_ref_def)
  show "jaccard_ref A B \<le> 1" by (simp add: jaccard_ref_def)
qed

lemma jaccard_ref_one:
  assumes "finite A" "finite B"
  shows "jaccard_ref A B = 1 \<longleftrightarrow> A \<inter> B = {}"
proof (cases "A = {} \<and> B = {}")
  case True
  then show ?thesis by (simp add: jaccard_ref_def)
next
  case False
  then have "0 < card (A \<union> B)" using assms by (simp add: card_gt_0_iff)
  then have "real (card (A \<inter> B)) / real (card (A \<union> B)) = 0 \<longleftrightarrow> card (A \<inter> B) = 0"
    by simp
  also have "\<dots> \<longleftrightarrow> A \<inter> B = {}" using assms by simp
  finally show ?thesis using False by (simp add: jaccard_ref_def)
qed

lemma jaccard_inner_spec:
  assumes "square n distM" "i < n" "i < j"
  shows "square n (jaccard_inner gs n i j distM) \<and>
     (\<forall>x y. jaccard_inner gs n i j distM ! x ! y =
        (if x = i \<and> j \<le> y \<and> y < n then jaccard_pair (gs ! i) (gs ! y)
         else if y = i \<and> j \<le> x \<and> x < n then jaccard_pair (gs ! i) (gs ! x)
         else distM ! x ! y))"
  using assms
proof (induction gs n i j distM rule: jaccard_inner.induct)
  case (1 gs n i j distM)
  show ?case
  proof (cases "j < n")
    case False
    then have "jaccard_inner gs n i j distM = distM" by (subst jaccard_inner.simps) simp
    with False 1(2) show ?thesis by auto
  next
    case True
    define d where "d = jaccard_pair (gs ! i) (gs ! j)"
    define dist1 where "dist1 = distM[i := (distM ! i)[j := d]]"
    define dist2 where "dist2 = dist1[j := (dist1 ! j)[i := d]]"
    have s1: "square n dist1" unfolding dist1_def by (rule square_put [OF 1(2)])
    have s2: "square n dist2" unfolding dist2_def by (rule square_put [OF s1])
    have n1: "dist1 ! x ! y = (if x = i \<and> y = j then d else distM ! x ! y)" for x y
      unfolding dist1_def by (rule nth_put [OF 1(2) 1(3) True])
    have n2: "dist2 ! x ! y = (if x = j \<and> y = i then d else dist1 ! x ! y)" for x y
      unfolding dist2_def by (rule nth_put [OF s1 True 1(3)])
    have e: "jaccard_inner gs n i j distM = jaccard_inner gs n i (j + 1) dist2"
      using True by (subst jaccard_inner.simps) (simp add: Let_def d_def dist1_def dist2_def)
    have IH: "square n (jaccard_inner gs n i (j + 1) dist2) \<and>
     (\<forall>x y. jaccard_inner gs n i (j + 1) dist2 ! x ! y =
        (if x = i \<and> j + 1 \<le> y \<and> y < n then jaccard_pair (gs ! i) (gs ! y)
         else if y = i \<and> j + 1 \<le> x \<and> x < n then jaccard_pair (gs ! i) (gs ! x)
         else dist2 ! x ! y))"
      using 1(1) [OF True d_def dist1_def dist2_def s2 1(3)] 1(4) by simp
    show ?thesis
      unfolding e using IH 1(4) True by (auto simp: n1 n2 d_def)
  qed
qed

lemma jaccard_outer_spec:
  assumes "square n distM"
  shows "square n (jaccard_outer gs n i distM) \<and>
     (\<forall>x y. jaccard_outer gs n i distM ! x ! y =
        (if x < n \<and> y < n \<and> x \<noteq> y \<and> i \<le> min x y
         then jaccard_pair (gs ! min x y) (gs ! max x y)
         else distM ! x ! y))"
  using assms
proof (induction gs n i distM rule: jaccard_outer.induct)
  case (1 gs n i distM)
  show ?case
  proof (cases "i < n")
    case False
    then have "jaccard_outer gs n i distM = distM" by (subst jaccard_outer.simps) simp
    with False 1(2) show ?thesis by auto
  next
    case True
    define dist1 where "dist1 = jaccard_inner gs n i (i + 1) distM"
    have in1: "square n dist1"
      and in2: "\<And>x y. dist1 ! x ! y =
        (if x = i \<and> i + 1 \<le> y \<and> y < n then jaccard_pair (gs ! i) (gs ! y)
         else if y = i \<and> i + 1 \<le> x \<and> x < n then jaccard_pair (gs ! i) (gs ! x)
         else distM ! x ! y)"
      unfolding dist1_def using jaccard_inner_spec [OF 1(2) True, of "i + 1" gs] by simp_all
    have e: "jaccard_outer gs n i distM = jaccard_outer gs n (i + 1) dist1"
      using True by (subst jaccard_outer.simps) (simp add: dist1_def)
    have IH0: "square n (jaccard_outer gs n (i + 1) dist1) \<and>
     (\<forall>x y. jaccard_outer gs n (i + 1) dist1 ! x ! y =
        (if x < n \<and> y < n \<and> x \<noteq> y \<and> i + 1 \<le> min x y
         then jaccard_pair (gs ! min x y) (gs ! max x y)
         else dist1 ! x ! y))"
      using 1(1) [OF True] in1 unfolding dist1_def by blast
    have IHsq: "square n (jaccard_outer gs n (i + 1) dist1)" using IH0 by blast
    have IH: "jaccard_outer gs n (i + 1) dist1 ! x ! y =
        (if x < n \<and> y < n \<and> x \<noteq> y \<and> i + 1 \<le> min x y
         then jaccard_pair (gs ! min x y) (gs ! max x y)
         else dist1 ! x ! y)" for x y
      using IH0 by blast
    show ?thesis
      unfolding e
    proof (intro conjI allI)
      show "square n (jaccard_outer gs n (i + 1) dist1)" by (rule IHsq)
      fix x y
      consider (a) "x < n" "y < n" "x \<noteq> y" "i + 1 \<le> min x y"
        | (b) "x < n" "y < n" "x \<noteq> y" "min x y = i"
        | (c) "\<not> (x < n \<and> y < n \<and> x \<noteq> y \<and> i \<le> min x y)"
        by linarith
      then show "jaccard_outer gs n (i + 1) dist1 ! x ! y =
        (if x < n \<and> y < n \<and> x \<noteq> y \<and> i \<le> min x y
         then jaccard_pair (gs ! min x y) (gs ! max x y)
         else distM ! x ! y)"
      proof cases
        case a
        then have l: "x < n \<and> y < n \<and> x \<noteq> y \<and> i + 1 \<le> min x y"
          and r: "x < n \<and> y < n \<and> x \<noteq> y \<and> i \<le> min x y" by linarith+
        show ?thesis unfolding IH [of x y] if_P [OF l] if_P [OF r] ..
      next
        case b
        then have "\<not> (x < n \<and> y < n \<and> x \<noteq> y \<and> i + 1 \<le> min x y)" by linarith
        then have "jaccard_outer gs n (i + 1) dist1 ! x ! y = dist1 ! x ! y"
          unfolding IH [of x y] by (rule if_not_P)
        also have "\<dots> = jaccard_pair (gs ! min x y) (gs ! max x y)"
          unfolding in2 [of x y] using b by (auto simp: min_def max_def split: if_splits)
        finally have f: "jaccard_outer gs n (i + 1) dist1 ! x ! y =
            jaccard_pair (gs ! min x y) (gs ! max x y)" .
        have r: "x < n \<and> y < n \<and> x \<noteq> y \<and> i \<le> min x y" using b by linarith
        show ?thesis unfolding f if_P [OF r] ..
      next
        case c
        then have "\<not> (x < n \<and> y < n \<and> x \<noteq> y \<and> i + 1 \<le> min x y)" by linarith
        then have "jaccard_outer gs n (i + 1) dist1 ! x ! y = dist1 ! x ! y"
          unfolding IH [of x y] by (rule if_not_P)
        also have "\<dots> = distM ! x ! y"
          unfolding in2 [of x y] using c by (auto simp: min_def split: if_splits)
        finally have f: "jaccard_outer gs n (i + 1) dist1 ! x ! y = distM ! x ! y" .
        show ?thesis unfolding f if_not_P [OF c] ..
      qed
    qed
  qed
qed

lemma computeJaccardDistanceMatrix_spec:
  "square (length data) (computeJaccardDistanceMatrix data)"
  "i < length data \<Longrightarrow> j < length data \<Longrightarrow>
   computeJaccardDistanceMatrix data ! i ! j =
     (if i = j then 0 else jaccard_ref (set (genes (data ! i))) (set (genes (data ! j))))"
proof -
  let ?n = "length data"
  let ?gs = "map (\<lambda>d. new_Set (genes d)) data"
  let ?z = "replicate ?n (replicate ?n (0::real))"
  have sq: "square ?n ?z" by (simp add: square_def)
  have c: "computeJaccardDistanceMatrix data = jaccard_outer ?gs ?n 0 ?z"
    by (simp add: computeJaccardDistanceMatrix_def Let_def)
  note spec = jaccard_outer_spec [OF sq, of ?gs 0]
  show "square ?n (computeJaccardDistanceMatrix data)" unfolding c using spec by simp
  assume ij: "i < ?n" "j < ?n"
  have pair: "jaccard_pair (?gs ! x) (?gs ! y) =
      jaccard_ref (set (genes (data ! x))) (set (genes (data ! y)))" if "x < ?n" "y < ?n" for x y
    using that by (simp add: jaccard_pair_ref new_Set_props)
  show "computeJaccardDistanceMatrix data ! i ! j =
     (if i = j then 0 else jaccard_ref (set (genes (data ! i))) (set (genes (data ! j))))"
  proof (cases "i = j")
    case True
    then show ?thesis unfolding c using spec ij by simp
  next
    case False
    have m: "min i j < ?n" "max i j < ?n" using ij by simp_all
    have "computeJaccardDistanceMatrix data ! i ! j = jaccard_pair (?gs ! min i j) (?gs ! max i j)"
      unfolding c using spec ij False by simp
    also have "\<dots> = jaccard_ref (set (genes (data ! min i j))) (set (genes (data ! max i j)))"
      by (rule pair [OF m])
    also have "\<dots> = jaccard_ref (set (genes (data ! i))) (set (genes (data ! j)))"
      by (cases "i \<le> j") (simp_all add: min_def max_def jaccard_ref_sym)
    finally show ?thesis using False by simp
  qed
qed

subsection \<open>Claims on the Jaccard matrix\<close>

text \<open>
  C8 as stated fails in its last part: for a row without genes and a row with one gene the
  distance is 1, while the two gene sets are neither both non-empty nor both empty. (On the
  diagonal the entry of a row without genes is 0, not 1.)
\<close>

theorem jaccard_one_counterexample:
  "computeJaccardDistanceMatrix jaccard_example ! 0 ! 1 = 1 \<and>
   \<not> (set (genes (jaccard_example ! 0)) \<inter> set (genes (jaccard_example ! 1)) = {} \<and>
      set (genes (jaccard_example ! 0)) \<noteq> {} \<and> set (genes (jaccard_example ! 1)) \<noteq> {}) \<and>
   \<not> (set (genes (jaccard_example ! 0)) = {} \<and> set (genes (jaccard_example ! 1)) = {}) \<and>
   computeJaccardDistanceMatrix jaccard_example ! 0 ! 0 = 0 \<and>
   set (genes (jaccard_example ! 0)) = {}"
proof -
  have l: "0 < length jaccard_example" "1 < length jaccard_example"
    by (simp_all add: jaccard_example_def)
  have g: "genes (jaccard_example ! 0) = []" "genes (jaccard_example ! 1) = [''g1'']"
    by (simp_all add: jaccard_example_def bh_row_def)
  show ?thesis
    unfolding computeJaccardDistanceMatrix_spec(2) [OF l] computeJaccardDistanceMatrix_spec(2) [OF l(1) l(1)] g
    by (simp add: jaccard_ref_def)
qed

text \<open>
  C8, amended. The matrix is square with a zero diagonal and symmetric, every entry lies
  in \<open>[0, 1]\<close>, and for \<open>i \<noteq> j\<close> the entry is the Jaccard distance of the two gene sets
  (1 when both are empty) and equals 1 exactly when the two gene sets are disjoint, which
  includes one or both of them being empty.
\<close>

theorem jaccard_matrix:
  "length (computeJaccardDistanceMatrix data) = length data \<and>
   (\<forall>i < length data. \<forall>j < length data.
      length (computeJaccardDistanceMatrix data ! i) = length data \<and>
      computeJaccardDistanceMatrix data ! i ! i = 0 \<and>
      computeJaccardDistanceMatrix data ! i ! j = computeJaccardDistanceMatrix data ! j ! i \<and>
      0 \<le> computeJaccardDistanceMatrix data ! i ! j \<and>
      computeJaccardDistanceMatrix data ! i ! j \<le> 1 \<and>
      (i \<noteq> j \<longrightarrow>
         computeJaccardDistanceMatrix data ! i ! j =
           jaccard_ref (set (genes (data ! i))) (set (genes (data ! j))) \<and>
         (computeJaccardDistanceMatrix data ! i ! j = 1 \<longleftrightarrow>
            set (genes (data ! i)) \<inter> set (genes (data ! j)) = {})))"
proof (intro conjI allI impI)
  show "length (computeJaccardDistanceMatrix data) = length data"
    using computeJaccardDistanceMatrix_spec(1) [of data] by (simp add: square_def)
next
  fix i j
  assume ij: "i < length data" "j < length data"
  let ?D = "computeJaccardDistanceMatrix data"
  let ?A = "set (genes (data ! i))" and ?B = "set (genes (data ! j))"
  note e = computeJaccardDistanceMatrix_spec(2)
  show "length (?D ! i) = length data"
    using computeJaccardDistanceMatrix_spec(1) [of data] ij by (simp add: square_def)
  show "?D ! i ! i = 0" using e [OF ij(1) ij(1)] by simp
  show "?D ! i ! j = ?D ! j ! i"
    unfolding e [OF ij] e [OF ij(2) ij(1)] by (simp add: jaccard_ref_sym)
  show "0 \<le> ?D ! i ! j" unfolding e [OF ij] by (simp add: jaccard_ref_range)
  show "?D ! i ! j \<le> 1" unfolding e [OF ij] by (simp add: jaccard_ref_range)
  assume "i \<noteq> j"
  then show "?D ! i ! j = jaccard_ref ?A ?B" unfolding e [OF ij] by simp
  then show "(?D ! i ! j = 1) = (?A \<inter> ?B = {})" by (simp add: jaccard_ref_one)
qed

theorem jaccard_matrix_witness:
  "(0::nat) < length jaccard_example \<and> (1::nat) < length jaccard_example \<and> (0::nat) \<noteq> 1 \<and>
   length (computeJaccardDistanceMatrix jaccard_example) = 2 \<and>
   computeJaccardDistanceMatrix jaccard_example ! 0 ! 0 = 0 \<and>
   computeJaccardDistanceMatrix jaccard_example ! 0 ! 1 =
     computeJaccardDistanceMatrix jaccard_example ! 1 ! 0 \<and>
   computeJaccardDistanceMatrix jaccard_example ! 0 ! 1 =
     jaccard_ref (set (genes (jaccard_example ! 0))) (set (genes (jaccard_example ! 1))) \<and>
   (computeJaccardDistanceMatrix jaccard_example ! 0 ! 1 = 1) =
     (set (genes (jaccard_example ! 0)) \<inter> set (genes (jaccard_example ! 1)) = {})"
proof -
  have l: "0 < length jaccard_example" "1 < length jaccard_example" "length jaccard_example = 2"
    by (simp_all add: jaccard_example_def)
  have n: "(0::nat) \<noteq> 1" by simp
  note m = jaccard_matrix [of jaccard_example]
  note r = m [THEN conjunct2, rule_format, OF l(1) l(2)]
  have a: "computeJaccardDistanceMatrix jaccard_example ! 0 ! 1 =
     jaccard_ref (set (genes (jaccard_example ! 0))) (set (genes (jaccard_example ! 1)))"
    and b: "(computeJaccardDistanceMatrix jaccard_example ! 0 ! 1 = 1) =
     (set (genes (jaccard_example ! 0)) \<inter> set (genes (jaccard_example ! 1)) = {})"
    using r n by blast+
  show ?thesis
    using m [THEN conjunct1] r a b l by simp
qed

subsection \<open>Facts about the closest-pair scan\<close>

lemma scan_row_fold: "scan_row d i js best = foldl (scan_step d) best (map (Pair i) js)"
  by (induction js arbitrary: best) simp_all

lemma scan_pairs_fold: "scan_pairs d xs best = foldl (scan_step d) best (active_pairs xs)"
  by (induction xs arbitrary: best) (simp_all add: scan_row_fold)

lemma scan_fold_first_min:
  "ps \<noteq> [] \<Longrightarrow>
   \<exists>a b. foldl (scan_step d) None ps = Some (d ! a ! b, a, b) \<and> first_min_pair d ps (a, b)"
proof (induction ps rule: rev_induct)
  case Nil
  then show ?case by simp
next
  case (snoc p ps)
  obtain i j where p: "p = (i, j)" by (cases p)
  show ?case
  proof (cases "ps = []")
    case True
    have "first_min_pair d [p] (i, j)"
      unfolding first_min_pair_def p by (intro exI [of _ "[]"]) simp
    then show ?thesis using True by (auto simp: scan_step_def p)
  next
    case False
    from snoc.IH [OF this] obtain a b
      where best: "foldl (scan_step d) None ps = Some (d ! a ! b, a, b)"
        and fm: "first_min_pair d ps (a, b)" by blast
    from fm obtain before after where ps: "ps = before @ (a, b) # after"
      and lt: "\<forall>q \<in> set before. d ! a ! b < d ! fst q ! snd q"
      and le: "\<forall>q \<in> set after. d ! a ! b \<le> d ! fst q ! snd q"
      by (auto simp: first_min_pair_def)
    show ?thesis
    proof (cases "d ! i ! j < d ! a ! b")
      case True
      have "\<forall>q \<in> set ps. d ! i ! j < d ! fst q ! snd q"
        using True lt le unfolding ps by fastforce
      then have "first_min_pair d (ps @ [p]) (i, j)"
        unfolding first_min_pair_def p
        by (intro exI [of _ ps] exI [of _ "[]"]) simp
      moreover have "foldl (scan_step d) None (ps @ [p]) = Some (d ! i ! j, i, j)"
        using True best by (simp add: scan_step_def p)
      ultimately show ?thesis by blast
    next
      case False
      have "first_min_pair d (ps @ [p]) (a, b)"
        unfolding first_min_pair_def
        using False lt le
        by (intro exI [of _ before] exI [of _ "after @ [p]"]) (auto simp: ps p)
      moreover have "foldl (scan_step d) None (ps @ [p]) = Some (d ! a ! b, a, b)"
        using False best by (simp add: scan_step_def p)
      ultimately show ?thesis by blast
    qed
  qed
qed

lemma active_pairs_mem:
  "(a, b) \<in> set (active_pairs xs) \<Longrightarrow> a \<in> set xs \<and> b \<in> set xs"
  by (induction xs) auto

lemma active_pairs_neq:
  "distinct xs \<Longrightarrow> (a, b) \<in> set (active_pairs xs) \<Longrightarrow> a \<noteq> b"
  by (induction xs) (auto dest: active_pairs_mem)

lemma active_pairs_nonempty: "2 \<le> length xs \<Longrightarrow> active_pairs xs \<noteq> []"
proof -
  assume "2 \<le> length xs"
  then obtain x y zs where "xs = x # y # zs"
    by (cases xs; cases "tl xs") auto
  then show ?thesis by simp
qed

lemma first_min_pair_mem: "first_min_pair d ps p \<Longrightarrow> p \<in> set ps"
  by (auto simp: first_min_pair_def)

lemma scan_pairs_first_min:
  assumes "2 \<le> length xs" "distinct xs"
  shows "\<exists>a b. scan_pairs d xs None = Some (d ! a ! b, a, b) \<and>
           first_min_pair d (active_pairs xs) (a, b) \<and> a \<in> set xs \<and> b \<in> set xs \<and> a \<noteq> b"
proof -
  from scan_fold_first_min [OF active_pairs_nonempty [OF assms(1)], of d] obtain a b
    where s: "foldl (scan_step d) None (active_pairs xs) = Some (d ! a ! b, a, b)"
      and f: "first_min_pair d (active_pairs xs) (a, b)" by blast
  have m: "(a, b) \<in> set (active_pairs xs)" by (rule first_min_pair_mem [OF f])
  show ?thesis
    using s f active_pairs_mem [OF m] active_pairs_neq [OF assms(2) m]
    by (auto simp: scan_pairs_fold)
qed

subsection \<open>Facts about the distance update\<close>

lemma update_dists_spec:
  assumes "square m d" "mi < m" "mj < m" "mi \<noteq> mj" "distinct ks" "set ks \<subseteq> {0..<m}"
  shows "square m (update_dists mi mj si sj ks d) \<and>
     (\<forall>x y. update_dists mi mj si sj ks d ! x ! y =
        (if x = mi \<and> y \<in> set ks - {mi, mj}
         then (d ! mi ! y * real si + d ! mj ! y * real sj) / real (si + sj)
         else if y = mi \<and> x \<in> set ks - {mi, mj}
         then (d ! mi ! x * real si + d ! mj ! x * real sj) / real (si + sj)
         else d ! x ! y))"
  using assms
proof (induction ks arbitrary: d)
  case Nil
  then show ?case by simp
next
  case (Cons k ks)
  have tl: "distinct ks" "set ks \<subseteq> {0..<m}" "k \<notin> set ks" "k < m"
    using Cons.prems by auto
  show ?case
  proof (cases "k = mi \<or> k = mj")
    case True
    have e: "update_dists mi mj si sj (k # ks) d = update_dists mi mj si sj ks d"
      using True by simp
    have s: "set (k # ks) - {mi, mj} = set ks - {mi, mj}" using True by auto
    show ?thesis
      unfolding e s by (rule Cons.IH [OF Cons.prems(1-4) tl(1,2)])
  next
    case False
    define f where "f = (\<lambda>d y. (d ! mi ! y * real si + d ! mj ! y * real sj) / real (si + sj))"
    define d1 where "d1 = d[mi := (d ! mi)[k := f d k]]"
    define d2 where "d2 = d1[k := (d1 ! k)[mi := d1 ! mi ! k]]"
    have e: "update_dists mi mj si sj (k # ks) d = update_dists mi mj si sj ks d2"
      using False by (simp add: Let_def d1_def d2_def f_def)
    have s1: "square m d1" unfolding d1_def by (rule square_put [OF Cons.prems(1)])
    have s2: "square m d2" unfolding d2_def by (rule square_put [OF s1])
    have n1: "d1 ! x ! y = (if x = mi \<and> y = k then f d k else d ! x ! y)" for x y
      unfolding d1_def by (rule nth_put [OF Cons.prems(1) Cons.prems(2) tl(4)])
    have n2: "d2 ! x ! y = (if x = k \<and> y = mi then d1 ! mi ! k else d1 ! x ! y)" for x y
      unfolding d2_def by (rule nth_put [OF s1 tl(4) Cons.prems(2)])
    have n: "d2 ! x ! y =
        (if x = mi \<and> y = k then f d k else if x = k \<and> y = mi then f d k else d ! x ! y)" for x y
      unfolding n2 n1 using False by auto
    have keep: "f d2 y = f d y" if "y \<in> set ks" for y
    proof -
      have "y \<noteq> k" using that tl(3) by auto
      then have "d2 ! mi ! y = d ! mi ! y" "d2 ! mj ! y = d ! mj ! y"
        unfolding n using False Cons.prems(4) by auto
      then show ?thesis by (simp add: f_def)
    qed
    note IH = Cons.IH [OF s2 Cons.prems(2-4) tl(1,2)]
    have IHn: "update_dists mi mj si sj ks d2 ! x ! y =
        (if x = mi \<and> y \<in> set ks - {mi, mj} then f d2 y
         else if y = mi \<and> x \<in> set ks - {mi, mj} then f d2 x
         else d2 ! x ! y)" for x y
      unfolding f_def using IH by blast
    have "update_dists mi mj si sj ks d2 ! x ! y =
        (if x = mi \<and> y \<in> set (k # ks) - {mi, mj} then f d y
         else if y = mi \<and> x \<in> set (k # ks) - {mi, mj} then f d x
         else d ! x ! y)" for x y
      unfolding IHn n using False keep by auto
    then show ?thesis unfolding e f_def using IH by blast
  qed
qed

subsection \<open>Facts about the rounds of the clustering\<close>

lemma length_leaf_indices: "length (leaf_indices t) = leaves t"
  by (induction t) simp_all

lemma leaves_pos: "0 < leaves t"
  by (induction t) simp_all

lemma upgma_init_inv:
  assumes "square (length dm) dm"
  shows "upgma_inv (length dm) (upgma_init dm)"
  using assms by (simp add: upgma_inv_def upgma_init_def Let_def)

lemma length_removeAll_distinct:
  assumes "distinct xs" "b \<in> set xs"
  shows "length (removeAll b xs) + 1 = length xs"
proof -
  have "length (removeAll b xs) = card (set xs - {b})"
    using assms(1) distinct_card [of "removeAll b xs"] by (simp add: distinct_removeAll)
  also have "\<dots> + 1 = card (set xs)"
    using assms(2) card_Suc_Diff1 [of "set xs" b] by simp
  also have "\<dots> = length xs" using assms(1) by (simp add: distinct_card)
  finally show ?thesis .
qed

lemma upgma_step_merge:
  assumes inv: "upgma_inv m s" and two: "2 \<le> length (st_active s)"
  shows "\<exists>s'. upgma_step s = Inr s' \<and> merge_spec s s' \<and> upgma_inv m s' \<and>
           length (st_active s') + 1 = length (st_active s)"
proof -
  let ?d = "st_dist s" and ?A = "st_active s" and ?N = "st_nodes s" and ?S = "st_sizes s"
  have sq: "square m ?d" and lS: "length ?S = m" and lN: "length ?N = m"
    and dist: "distinct ?A" and sub: "set ?A \<subseteq> {0..<m}"
    and trees: "\<And>a. a \<in> set ?A \<Longrightarrow>
          ?S ! a = leaves (?N ! a) \<and> internals (?N ! a) + 1 = leaves (?N ! a)"
    and total: "(\<Sum>a \<in> set ?A. leaves (?N ! a)) = m"
    and rows: "(\<Union>a \<in> set ?A. set (leaf_indices (?N ! a))) = {0..<m}"
    using inv unfolding upgma_inv_def by blast+
  from scan_pairs_first_min [OF two dist, of ?d] obtain a b
    where scan: "scan_pairs ?d ?A None = Some (?d ! a ! b, a, b)"
      and fm: "first_min_pair ?d (active_pairs ?A) (a, b)"
      and a: "a \<in> set ?A" and b: "b \<in> set ?A" and ab: "a \<noteq> b" by blast
  have am: "a < m" and bm: "b < m" using a b sub by auto
  define node where "node = Internal (?N ! a) (?N ! b) (?d ! a ! b / 2)"
  define d' where "d' = update_dists a b (?S ! a) (?S ! b) ?A ?d"
  define s' where "s' = \<lparr>st_dist = d', st_sizes = ?S[a := ?S ! a + ?S ! b],
      st_active = removeAll b ?A, st_nodes = ?N[a := node]\<rparr>"
  have step: "upgma_step s = Inr s'"
    by (simp add: upgma_step_def scan Let_def s'_def d'_def node_def)
  note upd = update_dists_spec [OF sq am bm ab dist sub, of "?S ! a" "?S ! b", folded d'_def]
  have sq': "square m d'" using upd by blast
  have d'_nth: "d' ! x ! y =
        (if x = a \<and> y \<in> set ?A - {a, b}
         then (?d ! a ! y * real (?S ! a) + ?d ! b ! y * real (?S ! b)) / real (?S ! a + ?S ! b)
         else if y = a \<and> x \<in> set ?A - {a, b}
         then (?d ! a ! x * real (?S ! a) + ?d ! b ! x * real (?S ! b)) / real (?S ! a + ?S ! b)
         else ?d ! x ! y)" for x y
    using upd by blast
  have spec: "merge_spec s s'"
    unfolding merge_spec_def
  proof (rule exI [of _ a], rule exI [of _ b], intro conjI ballI)
    show "first_min_pair ?d (active_pairs ?A) (a, b)" by (rule fm)
    show "st_nodes s' = ?N[a := Internal (?N ! a) (?N ! b) (?d ! a ! b / 2)]"
      by (simp add: s'_def node_def)
    show "st_sizes s' = ?S[a := ?S ! a + ?S ! b]" by (simp add: s'_def)
    show "st_active s' = removeAll b ?A" by (simp add: s'_def)
  next
    fix k assume k: "k \<in> set ?A - {a, b}"
    show "st_dist s' ! a ! k =
        (?d ! a ! k * real (?S ! a) + ?d ! b ! k * real (?S ! b)) / real (?S ! a + ?S ! b)"
      using k by (simp add: s'_def d'_nth)
    show "st_dist s' ! k ! a = st_dist s' ! a ! k"
      using k by (simp add: s'_def d'_nth)
  next
    fix k l assume "k \<in> set ?A - {a, b}" "l \<in> set ?A - {a, b}"
    then show "st_dist s' ! k ! l = ?d ! k ! l"
      by (simp add: s'_def d'_nth)
  qed
  have A': "set (removeAll b ?A) = set ?A - {b}" by simp
  have node_other: "?N[a := node] ! c = ?N ! c" if "c \<noteq> a" for c
    using that by simp
  have node_a: "?N[a := node] ! a = node" using am lN by simp
  have leaves_node: "leaves node = leaves (?N ! a) + leaves (?N ! b)" by (simp add: node_def)
  have fin: "finite (set ?A)" by simp
  have split: "set ?A - {b} = insert a (set ?A - {a, b})" using a ab by auto
  have split0: "set ?A = insert a (insert b (set ?A - {a, b}))" using a b by auto
  have total': "(\<Sum>c \<in> set ?A - {b}. leaves (?N[a := node] ! c)) = m"
  proof -
    have "(\<Sum>c \<in> set ?A - {b}. leaves (?N[a := node] ! c)) =
        leaves node + (\<Sum>c \<in> set ?A - {a, b}. leaves (?N[a := node] ! c))"
      unfolding split by (subst sum.insert) (simp_all add: node_a)
    also have "(\<Sum>c \<in> set ?A - {a, b}. leaves (?N[a := node] ! c)) =
        (\<Sum>c \<in> set ?A - {a, b}. leaves (?N ! c))"
      by (rule sum.cong) (simp_all add: node_other)
    also have "leaves node + \<dots> = (\<Sum>c \<in> insert a (insert b (set ?A - {a, b})). leaves (?N ! c))"
      using ab by (simp add: leaves_node)
    also have "\<dots> = m" unfolding split0 [symmetric] by (rule total)
    finally show ?thesis .
  qed
  have rows': "(\<Union>c \<in> set ?A - {b}. set (leaf_indices (?N[a := node] ! c))) = {0..<m}"
  proof -
    have "(\<Union>c \<in> set ?A - {b}. set (leaf_indices (?N[a := node] ! c))) =
        set (leaf_indices node) \<union> (\<Union>c \<in> set ?A - {a, b}. set (leaf_indices (?N[a := node] ! c)))"
      unfolding split by (simp add: node_a)
    also have "(\<Union>c \<in> set ?A - {a, b}. set (leaf_indices (?N[a := node] ! c))) =
        (\<Union>c \<in> set ?A - {a, b}. set (leaf_indices (?N ! c)))"
      by (intro SUP_cong refl) (simp add: node_other)
    also have "set (leaf_indices node) \<union> \<dots> =
        (\<Union>c \<in> insert a (insert b (set ?A - {a, b})). set (leaf_indices (?N ! c)))"
      by (auto simp: node_def)
    also have "\<dots> = {0..<m}" unfolding split0 [symmetric] by (rule rows)
    finally show ?thesis .
  qed
  have trees': "?S[a := ?S ! a + ?S ! b] ! c = leaves (?N[a := node] ! c) \<and>
      internals (?N[a := node] ! c) + 1 = leaves (?N[a := node] ! c)"
    if "c \<in> set ?A - {b}" for c
  proof (cases "c = a")
    case True
    have "internals node + 1 = leaves node"
      using trees [OF a] trees [OF b] by (simp add: node_def)
    then show ?thesis
      using True trees [OF a] trees [OF b] am lS by (simp add: node_a leaves_node)
  next
    case False
    then show ?thesis using that trees [of c] by (simp add: node_other)
  qed
  have inv': "upgma_inv m s'"
    unfolding upgma_inv_def
    using sq' lS lN dist sub trees' total' rows'
    by (simp add: s'_def distinct_removeAll A' subset_iff)
  have len: "length (st_active s') + 1 = length ?A"
    using length_removeAll_distinct [OF dist b] by (simp add: s'_def)
  show ?thesis using step spec inv' len by blast
qed

lemma upgma_trace_spec:
  assumes "upgma_inv m s" "length (st_active s) = t + 1"
  shows "length (upgma_trace t s) = t + 1 \<and> hd (upgma_trace t s) = s \<and>
     (\<forall>i < t. upgma_step (upgma_trace t s ! i) = Inr (upgma_trace t s ! (i + 1)) \<and>
              merge_spec (upgma_trace t s ! i) (upgma_trace t s ! (i + 1))) \<and>
     (\<forall>i \<le> t. upgma_inv m (upgma_trace t s ! i)) \<and>
     upgma_loop t s = Inr (last (upgma_trace t s)) \<and>
     upgma_inv m (last (upgma_trace t s)) \<and> length (st_active (last (upgma_trace t s))) = 1"
  using assms
proof (induction t arbitrary: s)
  case 0
  then show ?case by simp
next
  case (Suc t)
  have "2 \<le> length (st_active s)" using Suc.prems(2) by simp
  from upgma_step_merge [OF Suc.prems(1) this] obtain s'
    where step: "upgma_step s = Inr s'" and spec: "merge_spec s s'"
      and inv': "upgma_inv m s'" and len: "length (st_active s') + 1 = length (st_active s)"
    by blast
  have len': "length (st_active s') = t + 1" using len Suc.prems(2) by simp
  note IH = Suc.IH [OF inv' len']
  let ?tr = "upgma_trace t s'"
  have tr: "upgma_trace (Suc t) s = s # ?tr" by (simp add: step)
  have ne: "?tr \<noteq> []" using IH by auto
  have hd': "?tr ! 0 = s'" using IH ne by (simp add: hd_conv_nth)
  have steps: "upgma_step ((s # ?tr) ! i) = Inr ((s # ?tr) ! (i + 1)) \<and>
      merge_spec ((s # ?tr) ! i) ((s # ?tr) ! (i + 1))" if "i < Suc t" for i
  proof (cases i)
    case 0
    then show ?thesis using step spec hd' by simp
  next
    case (Suc j)
    then have "j < t" using that by simp
    then show ?thesis using IH Suc by simp
  qed
  have invs: "upgma_inv m ((s # ?tr) ! i)" if "i \<le> Suc t" for i
  proof (cases i)
    case 0
    then show ?thesis using Suc.prems(1) by simp
  next
    case (Suc j)
    then have "j \<le> t" using that by simp
    then show ?thesis using IH Suc by simp
  qed
  show ?case
    unfolding tr using IH ne steps invs by (simp add: step)
qed

lemma upgma_root:
  assumes "upgma_inv m s" "length (st_active s) = 1"
  shows "st_active s = [hd (st_active s)]"
    and "leaves (st_nodes s ! hd (st_active s)) = m"
    and "internals (st_nodes s ! hd (st_active s)) + 1 = m"
    and "set (leaf_indices (st_nodes s ! hd (st_active s))) = {0..<m}"
    and "distinct (leaf_indices (st_nodes s ! hd (st_active s)))"
proof -
  obtain r where r: "st_active s = [r]"
    using assms(2) by (cases "st_active s") auto
  let ?t = "st_nodes s ! r"
  show "st_active s = [hd (st_active s)]" by (simp add: r)
  have l: "leaves ?t = m" and i: "internals ?t + 1 = leaves ?t"
    and rows: "set (leaf_indices ?t) = {0..<m}"
    using assms(1) unfolding upgma_inv_def r by simp_all
  show "leaves (st_nodes s ! hd (st_active s)) = m" by (simp add: r l)
  show "internals (st_nodes s ! hd (st_active s)) + 1 = m" using i l by (simp add: r)
  show "set (leaf_indices (st_nodes s ! hd (st_active s))) = {0..<m}" by (simp add: r rows)
  have "card (set (leaf_indices ?t)) = length (leaf_indices ?t)"
    by (simp add: rows length_leaf_indices l)
  then show "distinct (leaf_indices (st_nodes s ! hd (st_active s)))"
    by (simp add: r card_distinct)
qed

subsection \<open>Claim on the clustering\<close>

text \<open>
  C9. \<open>upgmaClustering\<close> returns \<^verbatim>\<open>null\<close> for no rows and the leaf of index 0 and height 0
  for one row. For a square matrix of \<open>m \<ge> 2\<close> rows the main loop runs \<open>m - 1\<close> rounds
  without an error; each round is a merge as \<open>merge_spec\<close> describes it (first closest pair in
  scan order, node of half that distance, size-weighted average distances, the size of an
  active cluster being the number of leaves of its tree); and the tree
  returned is the node left at the one active index, a binary tree with \<open>m\<close> leaves, which
  are the \<open>m\<close> rows once each, and \<open>m - 1\<close> internal nodes.
\<close>

theorem upgmaClustering_tree:
  assumes "square (length dm) dm"
  shows "(length dm = 0 \<longrightarrow> upgmaClustering dm = Inr None) \<and>
     (length dm = 1 \<longrightarrow>
        upgmaClustering dm = Inr (Some (Leaf 0)) \<and> node_height (Leaf 0) = 0) \<and>
     (2 \<le> length dm \<longrightarrow>
        length (upgma_trace (length dm - 1) (upgma_init dm)) = length dm \<and>
        hd (upgma_trace (length dm - 1) (upgma_init dm)) = upgma_init dm \<and>
        (\<forall>t. t + 1 < length dm \<longrightarrow>
           upgma_step (upgma_trace (length dm - 1) (upgma_init dm) ! t) =
             Inr (upgma_trace (length dm - 1) (upgma_init dm) ! (t + 1)) \<and>
           merge_spec (upgma_trace (length dm - 1) (upgma_init dm) ! t)
             (upgma_trace (length dm - 1) (upgma_init dm) ! (t + 1))) \<and>
        (\<forall>t < length dm.
           \<forall>a \<in> set (st_active (upgma_trace (length dm - 1) (upgma_init dm) ! t)).
             st_sizes (upgma_trace (length dm - 1) (upgma_init dm) ! t) ! a =
               leaves (st_nodes (upgma_trace (length dm - 1) (upgma_init dm) ! t) ! a)) \<and>
        (\<exists>r root.
           st_active (last (upgma_trace (length dm - 1) (upgma_init dm))) = [r] \<and>
           root = st_nodes (last (upgma_trace (length dm - 1) (upgma_init dm))) ! r \<and>
           upgmaClustering dm = Inr (Some root) \<and>
           leaves root = length dm \<and> internals root = length dm - 1 \<and>
           distinct (leaf_indices root) \<and> set (leaf_indices root) = {0..<length dm}))"
proof (intro conjI impI)
  show "upgmaClustering dm = Inr None" if "length dm = 0"
    using that by (simp add: upgmaClustering_def)
  show "upgmaClustering dm = Inr (Some (Leaf 0))" if "length dm = 1"
    using that by (simp add: upgmaClustering_def)
  show "node_height (Leaf 0) = 0" by simp
next
  assume two: "2 \<le> length dm"
  let ?m = "length dm"
  let ?tr = "upgma_trace (?m - 1) (upgma_init dm)"
  have act: "length (st_active (upgma_init dm)) = (?m - 1) + 1"
    using two by (simp add: upgma_init_def Let_def)
  note T = upgma_trace_spec [OF upgma_init_inv [OF assms] act]
  show "length ?tr = ?m" using T two by simp
  show "hd ?tr = upgma_init dm" using T by simp
  show "\<forall>t. t + 1 < ?m \<longrightarrow> upgma_step (?tr ! t) = Inr (?tr ! (t + 1)) \<and>
      merge_spec (?tr ! t) (?tr ! (t + 1))"
    using T by simp
  have "upgma_inv ?m (?tr ! t)" if "t < ?m" for t
    using T that by simp
  then show "\<forall>t < ?m. \<forall>a \<in> set (st_active (?tr ! t)).
      st_sizes (?tr ! t) ! a = leaves (st_nodes (?tr ! t) ! a)"
    unfolding upgma_inv_def by blast
  have inv: "upgma_inv ?m (last ?tr)" and one: "length (st_active (last ?tr)) = 1"
    and loop: "upgma_loop (?m - 1) (upgma_init dm) = Inr (last ?tr)"
    using T by simp_all
  note R = upgma_root [OF inv one]
  let ?r = "hd (st_active (last ?tr))"
  have n0: "\<not> ?m = 0" and n1: "\<not> ?m = 1" using two by linarith+
  have res: "upgmaClustering dm = Inr (Some (st_nodes (last ?tr) ! ?r))"
    unfolding upgmaClustering_def Let_def if_not_P [OF n0] if_not_P [OF n1] loop by simp
  have "internals (st_nodes (last ?tr) ! ?r) = ?m - 1" using R(3) by simp
  then show "\<exists>r root. st_active (last ?tr) = [r] \<and> root = st_nodes (last ?tr) ! r \<and>
           upgmaClustering dm = Inr (Some root) \<and>
           leaves root = ?m \<and> internals root = ?m - 1 \<and>
           distinct (leaf_indices root) \<and> set (leaf_indices root) = {0..<?m}"
    using R res by blast
qed

theorem upgmaClustering_tree_witness:
  "square (length upgma_example) upgma_example \<and> 2 \<le> length upgma_example \<and>
   (0::nat) + 1 < length upgma_example \<and>
   upgmaClustering upgma_example =
     Inr (Some (Internal (Internal (Leaf 0) (Leaf 1) (1 / 10)) (Leaf 2) (2 / 5))) \<and>
   upgma_step (upgma_trace 2 (upgma_init upgma_example) ! 0) =
     Inr (upgma_trace 2 (upgma_init upgma_example) ! 1) \<and>
   merge_spec (upgma_trace 2 (upgma_init upgma_example) ! 0)
     (upgma_trace 2 (upgma_init upgma_example) ! 1) \<and>
   leaves (Internal (Internal (Leaf 0) (Leaf 1) (1 / 10)) (Leaf 2) (2 / 5)) = length upgma_example \<and>
   internals (Internal (Internal (Leaf 0) (Leaf 1) (1 / 10)) (Leaf 2) (2 / 5)) =
     length upgma_example - 1 \<and>
   square (length ([] :: real list list)) ([] :: real list list) \<and>
   length ([] :: real list list) = 0 \<and> upgmaClustering [] = Inr None \<and>
   square (length [[0::real]]) [[0::real]] \<and> length [[0::real]] = 1 \<and>
   upgmaClustering [[0]] = Inr (Some (Leaf 0))"
proof -
  have l: "length upgma_example = 3" by (simp add: upgma_example_def)
  have sq: "square (length upgma_example) upgma_example"
    by (simp add: square_def upgma_example_def less_Suc_eq numeral_3_eq_3)
  have sq0: "square (length ([] :: real list list)) ([] :: real list list)"
    by (simp add: square_def)
  have sq1: "square (length [[0::real]]) [[0::real]]" by (simp add: square_def)
  have two: "2 \<le> length upgma_example" and one: "(0::nat) + 1 < length upgma_example"
    using l by simp_all
  note W = upgmaClustering_tree [OF sq, THEN conjunct2, THEN conjunct2, rule_format, OF two]
  have steps: "\<forall>t. t + 1 < length upgma_example \<longrightarrow>
      upgma_step (upgma_trace (length upgma_example - 1) (upgma_init upgma_example) ! t) =
        Inr (upgma_trace (length upgma_example - 1) (upgma_init upgma_example) ! (t + 1)) \<and>
      merge_spec (upgma_trace (length upgma_example - 1) (upgma_init upgma_example) ! t)
        (upgma_trace (length upgma_example - 1) (upgma_init upgma_example) ! (t + 1))"
    using W by blast
  have m: "upgma_step (upgma_trace 2 (upgma_init upgma_example) ! 0) =
      Inr (upgma_trace 2 (upgma_init upgma_example) ! 1) \<and>
    merge_spec (upgma_trace 2 (upgma_init upgma_example) ! 0)
     (upgma_trace 2 (upgma_init upgma_example) ! 1)"
    using steps [rule_format, OF one] l by simp
  from W obtain root where root: "upgmaClustering upgma_example = Inr (Some root)"
    "leaves root = length upgma_example" "internals root = length upgma_example - 1"
    by blast
  have t: "upgmaClustering upgma_example =
     Inr (Some (Internal (Internal (Leaf 0) (Leaf 1) (1 / 10)) (Leaf 2) (2 / 5)))"
    by (simp add: upgmaClustering_def upgma_example_def upgma_init_def upgma_step_def
        scan_step_def numeral_2_eq_2 numeral_3_eq_3 upt_rec Let_def)
  have r: "root = Internal (Internal (Leaf 0) (Leaf 1) (1 / 10)) (Leaf 2) (2 / 5)"
    using root(1) t by simp
  have e0: "upgmaClustering [] = Inr None"
    using upgmaClustering_tree [OF sq0] by simp
  have e1: "upgmaClustering [[0]] = Inr (Some (Leaf 0))"
    using upgmaClustering_tree [OF sq1] by simp
  show ?thesis
    using sq two one t m root(2,3) sq0 sq1 e0 e1 unfolding r by simp
qed

end
